theory Spec2Isabelle
  imports Main "HOL-Library.Sublist"
begin

section \<open>JavaScript strings\<close>

text \<open>
  A JavaScript string is a sequence of UTF-16 code units; a code unit is modelled by its
  number. \<open>js\<close> turns an ASCII literal of the script into such a sequence.
\<close>

type_synonym jstr = "nat list"

definition js :: "string \<Rightarrow> jstr" where
  "js s = map of_char s"

text \<open>\<open>WhiteSpace\<close> and \<open>LineTerminator\<close> of ECMAScript: what \<open>trim()\<close> strips and \<open>\s\<close> matches.\<close>

definition isWhiteSpace :: "nat \<Rightarrow> bool" where
  "isWhiteSpace c \<longleftrightarrow>
     c \<in> {9, 10, 11, 12, 13, 32, 160, 5760, 8232, 8233, 8239, 8287, 12288, 65279}
     \<or> (8192 \<le> c \<and> c \<le> 8202)"

text \<open>The line terminators: what \<open>.\<close> does not match and where \<open>^\<close> and \<open>$\<close> anchor under the \<open>m\<close> flag.\<close>

definition isLineTerminator :: "nat \<Rightarrow> bool" where
  "isLineTerminator c \<longleftrightarrow> c \<in> {10, 13, 8232, 8233}"

text \<open>\<open>\w\<close>: ASCII letters, digits and the underscore.\<close>

definition isWordChar :: "nat \<Rightarrow> bool" where
  "isWordChar c \<longleftrightarrow> (48 \<le> c \<and> c \<le> 57) \<or> (65 \<le> c \<and> c \<le> 90) \<or> c = 95 \<or> (97 \<le> c \<and> c \<le> 122)"

definition trim :: "jstr \<Rightarrow> jstr" where
  "trim s = rev (dropWhile isWhiteSpace (rev (dropWhile isWhiteSpace s)))"

text \<open>\<open>s.indexOf(pat)\<close>, with \<open>None\<close> for \<open>-1\<close>; \<open>s.includes(pat)\<close> is \<open>indexOf pat s \<noteq> None\<close>.\<close>

fun indexOf :: "jstr \<Rightarrow> jstr \<Rightarrow> nat option" where
  "indexOf pat [] = (if pat = [] then Some 0 else None)"
| "indexOf pat (c # cs) =
     (if prefix pat (c # cs) then Some 0 else map_option Suc (indexOf pat cs))"

definition includes_str :: "jstr \<Rightarrow> jstr \<Rightarrow> bool" where
  "includes_str pat s \<longleftrightarrow> indexOf pat s \<noteq> None"

text \<open>\<open>s.replace(/c/g, rep)\<close> for a one-character pattern and a replacement without \<open>$\<close>.\<close>

fun replaceAll :: "nat \<Rightarrow> jstr \<Rightarrow> jstr \<Rightarrow> jstr" where
  "replaceAll c rep [] = []"
| "replaceAll c rep (x # xs) = (if x = c then rep else [x]) @ replaceAll c rep xs"

text \<open>\<open>s.replace(pat, rep)\<close> for a string pattern: the first occurrence only.\<close>

definition replaceFirst :: "jstr \<Rightarrow> jstr \<Rightarrow> jstr \<Rightarrow> jstr" where
  "replaceFirst pat rep s =
     (case indexOf pat s of
        None \<Rightarrow> s
      | Some i \<Rightarrow> take i s @ rep @ drop (i + length pat) s)"

fun digit_str :: "nat \<Rightarrow> jstr" where
  "digit_str n = (if n < 10 then [48 + n] else digit_str (n div 10) @ [48 + n mod 10])"

section \<open>Values decoded by \<open>JSON.parse\<close>\<close>

text \<open>
  The values \<open>JSON.parse\<close> can return. Numbers are kept abstract (type \<open>'n\<close>): the script
  only tests them for truthiness, compares them with \<open>0\<close> and prints them, and these three
  operations belong to the JavaScript runtime.
\<close>

datatype 'n json =
    JNull
  | JBool bool
  | JNum 'n
  | JStr jstr
  | JArr "'n json list"
  | JObj "(jstr \<times> 'n json) list"

text \<open>
  The runtime functions the script calls and does not define. \<open>JSON_parse\<close> returns \<open>None\<close>
  where \<open>JSON.parse\<close> throws a SyntaxError; \<open>greater_than_zero v\<close> is the comparison
  \<open>v > 0\<close>, which can throw. For an element whose \<open>innerHTML\<close> was last assigned the markup
  \<open>h\<close>, \<open>innerHTML h\<close> is the markup read back, and \<open>textContent h\<close> and \<open>innerText h\<close> are its
  two texts.
\<close>

datatype exn = TypeError

record 'n runtime =
  JSON_parse :: "jstr \<Rightarrow> 'n json option"
  Number_toString :: "'n \<Rightarrow> jstr"
  Number_toBoolean :: "'n \<Rightarrow> bool"
  greater_than_zero :: "'n json \<Rightarrow> exn + bool"
  innerHTML :: "jstr \<Rightarrow> jstr"
  textContent :: "jstr \<Rightarrow> jstr"
  innerText :: "jstr \<Rightarrow> jstr"

text \<open>
  \<open>v.name\<close> for one of the property names the script reads (\<open>token\<close>, \<open>memories_added\<close>,
  \<open>memory_stats\<close>, \<open>facts\<close>, \<open>experiences\<close>, \<open>topics\<close>): a TypeError on \<open>null\<close>, the own
  property of an object, and \<open>undefined\<close> (\<open>None\<close>) in every other case.
\<close>

fun get_prop :: "'n json \<Rightarrow> jstr \<Rightarrow> exn + 'n json option" where
  "get_prop JNull name = Inl TypeError"
| "get_prop (JObj kvs) name = Inr (map_of kvs name)"
| "get_prop v name = Inr None"

text \<open>Truthiness of a value that may be \<open>undefined\<close>.\<close>

fun truthy :: "'n runtime \<Rightarrow> 'n json option \<Rightarrow> bool" where
  "truthy rt None = False"
| "truthy rt (Some JNull) = False"
| "truthy rt (Some (JBool b)) = b"
| "truthy rt (Some (JNum n)) = Number_toBoolean rt n"
| "truthy rt (Some (JStr s)) = (s \<noteq> [])"
| "truthy rt (Some (JArr xs)) = True"
| "truthy rt (Some (JObj kvs)) = True"

text \<open>The strings of the elements of an array joined by commas; the first that throws, throws.\<close>

fun join_comma :: "(exn + jstr) list \<Rightarrow> exn + jstr" where
  "join_comma [] = Inr []"
| "join_comma [x] = x"
| "join_comma (x # y # ys) =
     (case x of
        Inl e \<Rightarrow> Inl e
      | Inr a \<Rightarrow> (case join_comma (y # ys) of Inl e \<Rightarrow> Inl e | Inr b \<Rightarrow> Inr (a @ [44] @ b)))"

text \<open>
  The string a decoded value contributes to a concatenation or a template literal. An array
  is its elements joined, \<open>null\<close> elements printing as the empty string. An object prints as
  \<open>[object Object]\<close> through \<open>Object.prototype.toString\<close>, unless it has a key \<open>toString\<close> of its
  own: that value is not a function, and the conversion throws a TypeError.
\<close>

fun ToString :: "'n runtime \<Rightarrow> 'n json \<Rightarrow> exn + jstr" where
  "ToString rt JNull = Inr (js ''null'')"
| "ToString rt (JBool b) = Inr (if b then js ''true'' else js ''false'')"
| "ToString rt (JNum n) = Inr (Number_toString rt n)"
| "ToString rt (JStr s) = Inr s"
| "ToString rt (JArr xs) =
     join_comma (map (\<lambda>x. if x = JNull then Inr [] else ToString rt x) xs)"
| "ToString rt (JObj kvs) =
     (if map_of kvs (js ''toString'') = None then Inr (js ''[object Object]'')
      else Inl TypeError)"

text \<open>\<open>`${v.name}`\<close>: the property read and printed, \<open>undefined\<close> printing as itself.\<close>

definition prop_string :: "'n runtime \<Rightarrow> 'n json \<Rightarrow> jstr \<Rightarrow> exn + jstr" where
  "prop_string rt v name =
     (case get_prop v name of
        Inl e \<Rightarrow> Inl e
      | Inr None \<Rightarrow> Inr (js ''undefined'')
      | Inr (Some x) \<Rightarrow> ToString rt x)"

section \<open>formatMessage\<close>

text \<open>
  The regular expressions of \<open>formatMessage\<close> are written out as the scanners they denote:
  each function below is one \<open>replace\<close> call of the source, with the leftmost match taken
  first and the scan resumed after it.
\<close>

text \<open>
  \<open>(.*?)pat\<close> tried at the head of a string: the shortest run of characters other than line
  terminators that is followed by \<open>pat\<close>, and what follows \<open>pat\<close>.
\<close>

fun lazy_until :: "jstr \<Rightarrow> jstr \<Rightarrow> (jstr \<times> jstr) option" where
  "lazy_until pat [] = (if pat = [] then Some ([], []) else None)"
| "lazy_until pat (c # cs) =
     (if prefix pat (c # cs) then Some ([], drop (length pat) (c # cs))
      else if isLineTerminator c then None
      else map_option (\<lambda>(m, r). (c # m, r)) (lazy_until pat cs))"

lemma indexOf_bound: "indexOf pat s = Some i \<Longrightarrow> i + length pat \<le> length s"
proof (induction s arbitrary: i)
  case Nil
  then show ?case by (simp split: if_splits)
next
  case (Cons c cs)
  show ?case
  proof (cases "prefix pat (c # cs)")
    case True
    with Cons.prems show ?thesis using prefix_length_le [OF True] by simp
  next
    case False
    with Cons.prems obtain j where "indexOf pat cs = Some j" "i = Suc j" by auto
    with Cons.IH show ?thesis by simp
  qed
qed

lemma lazy_until_length:
  "lazy_until pat s = Some (m, r) \<Longrightarrow> length m + length pat + length r = length s"
proof (induction s arbitrary: m)
  case Nil
  then show ?case by (simp split: if_splits)
next
  case (Cons c cs)
  show ?case
  proof (cases "prefix pat (c # cs)")
    case True
    with Cons.prems show ?thesis using prefix_length_le [OF True] by auto
  next
    case False
    with Cons.prems obtain m' where "lazy_until pat cs = Some (m', r)" "m = c # m'"
      by (auto split: if_splits)
    with Cons.IH show ?thesis by simp
  qed
qed

definition fence :: jstr where
  "fence = [96, 96, 96]"

text \<open>The callback of the code-block replacement, applied to the second group.\<close>

definition codeBlock :: "jstr \<Rightarrow> jstr" where
  \<open>codeBlock code =
     (let trimmedCode = trim code;
          lineCount = Suc (length (filter (\<lambda>c. c = 10) trimmedCode));
          isCompact = (lineCount \<le> 3 \<and> length trimmedCode < 100);
          compactClass = (if isCompact then js '' compact'' else [])
      in js ''<div class="code-block'' @ compactClass @ js ''">'' @ [10] @ replicate 20 32
         @ js ''<pre><code>'' @ trimmedCode @ js ''</code></pre>'' @ [10] @ replicate 16 32
         @ js ''</div>'')\<close>

text \<open>
  \<open>/```(\w+)?\s*\n?([\s\S]*?)```/g\<close>. After the opening fence the greedy \<open>(\w+)?\<close> and
  \<open>\s*\<close> take every word character and then every white space character (so \<open>\n?\<close> is
  left with nothing); the lazy group ends at the next fence. Neither greedy part can take a
  backquote, so a fence that finds no closing fence leaves no match further right either.
\<close>

function codeBlocks :: "jstr \<Rightarrow> jstr" where
  "codeBlocks s =
     (case indexOf fence s of
        None \<Rightarrow> s
      | Some p \<Rightarrow>
          (let rest = dropWhile isWhiteSpace (dropWhile isWordChar (drop (p + 3) s)) in
           case indexOf fence rest of
             None \<Rightarrow> s
           | Some q \<Rightarrow> take p s @ codeBlock (take q rest) @ codeBlocks (drop (q + 3) rest)))"
  by pat_completeness auto
termination
proof (relation "measure length")
  show "wf (measure length)" by simp
next
  fix s p rest q
  assume r: "rest = dropWhile isWhiteSpace (dropWhile isWordChar (drop (p + 3) s))"
    and q: "indexOf fence rest = Some q"
  have "length rest \<le> length (dropWhile isWordChar (drop (p + 3) s))"
    unfolding r by (rule length_dropWhile_le)
  also have "\<dots> \<le> length (drop (p + 3) s)" by (rule length_dropWhile_le)
  also have "\<dots> \<le> length s" by simp
  finally have "length rest \<le> length s" .
  moreover from indexOf_bound [OF q] have "q + 3 \<le> length rest" by (simp add: fence_def)
  ultimately show "(drop (q + 3) rest, s) \<in> measure length" by simp
qed

declare codeBlocks.simps [simp del]

text \<open>\<open>/`([^`\n]+)`/g\<close> with the replacement \<open><code class="inline-code">$1</code>\<close>.\<close>

function inlineCode :: "jstr \<Rightarrow> jstr" where
  "inlineCode [] = []"
| \<open>inlineCode (c # cs) =
     (let run = takeWhile (\<lambda>x. x \<noteq> 96 \<and> x \<noteq> 10) cs;
          after = dropWhile (\<lambda>x. x \<noteq> 96 \<and> x \<noteq> 10) cs
      in if c = 96 \<and> run \<noteq> [] \<and> prefix [96] after
         then js ''<code class="inline-code">'' @ run @ js ''</code>'' @ inlineCode (drop 1 after)
         else c # inlineCode cs)\<close>
  by pat_completeness auto
termination
proof (relation "measure length")
  show "wf (measure length)" by simp
next
  fix c :: nat and cs run after :: jstr
  assume "after = dropWhile (\<lambda>x. x \<noteq> 96 \<and> x \<noteq> 10) cs"
  then have "length after \<le> length cs" by (simp add: length_dropWhile_le)
  then show "(drop 1 after, c # cs) \<in> measure length" by simp
next
  fix c :: nat and cs :: jstr
  show "(cs, c # cs) \<in> measure length" by simp
qed

text \<open>\<open>/\*\*(.*?)\*\*/g\<close> with the replacement \<open><strong>$1</strong>\<close>.\<close>

function bold :: "jstr \<Rightarrow> jstr" where
  "bold (a # b # cs) =
     (if a = 42 \<and> b = 42
      then (case lazy_until [42, 42] cs of
              Some (m, r) \<Rightarrow> js ''<strong>'' @ m @ js ''</strong>'' @ bold r
            | None \<Rightarrow> a # bold (b # cs))
      else a # bold (b # cs))"
| "bold [a] = [a]"
| "bold [] = []"
  by pat_completeness auto
termination
proof (relation "measure length")
  show "wf (measure length)" by simp
next
  fix a b :: nat and cs x2 m r :: "jstr" and x2a :: "jstr \<times> jstr"
  assume "lazy_until [42, 42] cs = Some x2a" "(m, r) = x2a"
  then have "lazy_until [42, 42] cs = Some (m, r)" by simp
  from lazy_until_length [OF this] show "(r, a # b # cs) \<in> measure length" by simp
qed simp_all

text \<open>\<open>/\*(.*?)\*/g\<close> with the replacement \<open><em>$1</em>\<close>.\<close>

function italic :: "jstr \<Rightarrow> jstr" where
  "italic [] = []"
| "italic (a # cs) =
     (if a = 42
      then (case lazy_until [42] cs of
              Some (m, r) \<Rightarrow> js ''<em>'' @ m @ js ''</em>'' @ italic r
            | None \<Rightarrow> a # italic cs)
      else a # italic cs)"
  by pat_completeness auto
termination
proof (relation "measure length")
  show "wf (measure length)" by simp
next
  fix a :: nat and cs m r :: "jstr" and x2a :: "jstr \<times> jstr"
  assume "lazy_until [42] cs = Some x2a" "(m, r) = x2a"
  then have "lazy_until [42] cs = Some (m, r)" by simp
  from lazy_until_length [OF this] show "(r, a # cs) \<in> measure length" by simp
qed simp_all

text \<open>
  \<open>/^pat(.*$)/gm\<close> with the replacement \<open>open$1close\<close>, for \<open>pat\<close> one of \<open>###\<close>, \<open>##\<close>, \<open>#\<close>
  and \<open>-\<close> followed by a space. \<open>bol\<close> says that the scan stands at the start of a line: at
  the start of the string or after a line terminator. The group takes the rest of the line.
\<close>

function linePrefix :: "jstr \<Rightarrow> jstr \<Rightarrow> jstr \<Rightarrow> bool \<Rightarrow> jstr \<Rightarrow> jstr" where
  "linePrefix pat opn cls bol s =
     (if bol \<and> pat \<noteq> [] \<and> prefix pat s
      then (let rest = drop (length pat) s
            in opn @ takeWhile (\<lambda>c. \<not> isLineTerminator c) rest @ cls
               @ linePrefix pat opn cls False (dropWhile (\<lambda>c. \<not> isLineTerminator c) rest))
      else (case s of
              [] \<Rightarrow> []
            | c # cs \<Rightarrow> c # linePrefix pat opn cls (isLineTerminator c) cs))"
  by pat_completeness auto
termination
proof (relation "measure (\<lambda>(pat, opn, cls, bol, s). length s)")
  show "wf (measure (\<lambda>(pat, opn, cls, bol, s). length s))" by simp
next
  fix pat opn cls :: jstr and bol :: bool and s rest :: jstr
  assume a: "bol \<and> pat \<noteq> [] \<and> prefix pat s" and r: "rest = drop (length pat) s"
  from a have "length pat \<le> length s" by (simp add: prefix_length_le)
  moreover from a have "length pat \<noteq> 0" by simp
  ultimately have "length rest < length s" unfolding r length_drop by arith
  moreover have "length (dropWhile (\<lambda>c. \<not> isLineTerminator c) rest) \<le> length rest"
    by (rule length_dropWhile_le)
  ultimately show "((pat, opn, cls, False, dropWhile (\<lambda>c. \<not> isLineTerminator c) rest),
      (pat, opn, cls, bol, s)) \<in> measure (\<lambda>(pat, opn, cls, bol, s). length s)"
    by simp
next
  fix pat opn cls :: jstr and bol :: bool and s cs :: jstr and c :: nat
  assume "s = c # cs"
  then show "((pat, opn, cls, isLineTerminator c, cs), (pat, opn, cls, bol, s))
      \<in> measure (\<lambda>(pat, opn, cls, bol, s). length s)"
    by simp
qed

declare linePrefix.simps [simp del]

text \<open>\<open>(<li>.*?<\/li>)\<close> tried at the head of a string: the item matched and what follows it.\<close>

definition match_li :: "jstr \<Rightarrow> (jstr \<times> jstr) option" where
  "match_li s =
     (if prefix (js ''<li>'') s
      then map_option (\<lambda>(m, r). (js ''<li>'' @ m @ js ''</li>'', r))
             (lazy_until (js ''</li>'') (drop 4 s))
      else None)"

lemma match_li_length: "match_li s = Some (item, r) \<Longrightarrow> length r < length s"
proof -
  assume a: "match_li s = Some (item, r)"
  then have p: "prefix (js ''<li>'') s" by (simp add: match_li_def split: if_splits)
  from a p obtain m where "lazy_until (js ''</li>'') (drop 4 s) = Some (m, r)"
    by (auto simp: match_li_def)
  from lazy_until_length [OF this] have "length r \<le> length (drop 4 s)" by simp
  moreover from prefix_length_le [OF p] have "4 \<le> length s" by (simp add: js_def)
  ultimately show ?thesis by simp
qed

text \<open>
  \<open>(\s*<li>.*?<\/li>)*\<close> tried at the head of a string: the text of the further items, with
  the white space before each, and what follows the last of them.
\<close>

function more_items :: "jstr \<Rightarrow> jstr \<times> jstr" where
  "more_items s =
     (case match_li (dropWhile isWhiteSpace s) of
        None \<Rightarrow> ([], s)
      | Some (item, r) \<Rightarrow>
          (case more_items r of
             (items, r') \<Rightarrow> (takeWhile isWhiteSpace s @ item @ items, r')))"
  by pat_completeness auto
termination
proof (relation "measure length")
  show "wf (measure length)" by simp
next
  fix s :: jstr and x2 :: "jstr \<times> jstr" and item r :: jstr
  assume "match_li (dropWhile isWhiteSpace s) = Some x2" "(item, r) = x2"
  then have "match_li (dropWhile isWhiteSpace s) = Some (item, r)" by simp
  from match_li_length [OF this] have "length r < length (dropWhile isWhiteSpace s)" .
  also have "\<dots> \<le> length s" by (rule length_dropWhile_le)
  finally show "(r, s) \<in> measure length" by simp
qed

declare more_items.simps [simp del]

lemma more_items_length: "length (snd (more_items s)) \<le> length s"
proof (induction s rule: more_items.induct)
  case (1 s)
  show ?case
  proof (cases "match_li (dropWhile isWhiteSpace s)")
    case None
    then show ?thesis by (simp add: more_items.simps [of s])
  next
    case (Some x)
    obtain item r where x: "x = (item, r)" by (cases x)
    from Some x have m: "match_li (dropWhile isWhiteSpace s) = Some (item, r)" by simp
    from "1.IH" [OF Some x [symmetric]] have "length (snd (more_items r)) \<le> length r" .
    moreover from match_li_length [OF m] have "length r < length (dropWhile isWhiteSpace s)" .
    moreover have "length (dropWhile isWhiteSpace s) \<le> length s" by (rule length_dropWhile_le)
    ultimately show ?thesis
      using m by (auto simp: more_items.simps [of s] split: prod.splits)
  qed
qed

text \<open>\<open>/(<li>.*?<\/li>)(\s*<li>.*?<\/li>)*/g\<close> with the replacement \<open><ul>$&</ul>\<close>.\<close>

function wrapLists :: "jstr \<Rightarrow> jstr" where
  "wrapLists [] = []"
| "wrapLists (c # cs) =
     (case match_li (c # cs) of
        None \<Rightarrow> c # wrapLists cs
      | Some (item, r) \<Rightarrow>
          js ''<ul>'' @ item @ fst (more_items r) @ js ''</ul>'' @ wrapLists (snd (more_items r)))"
  by pat_completeness auto
termination
proof (relation "measure length")
  show "wf (measure length)" by simp
next
  fix c :: nat and cs :: jstr
  show "(cs, c # cs) \<in> measure length" by simp
next
  fix c :: nat and cs :: jstr and x2 :: "jstr \<times> jstr" and item r :: jstr
  assume "match_li (c # cs) = Some x2" "(item, r) = x2"
  then have "match_li (c # cs) = Some (item, r)" by simp
  from match_li_length [OF this] more_items_length [of r]
  show "(snd (more_items r), c # cs) \<in> measure length" by simp
qed

text \<open>
  The first statement of \<open>formatMessage\<close> after the guard: the five replacements that escape
  HTML, in the order of the source.
\<close>

definition escapeHtml :: "jstr \<Rightarrow> jstr" where
  "escapeHtml text =
     replaceAll 39 (js ''&#x27;'')
       (replaceAll 34 (js ''&quot;'')
         (replaceAll 62 (js ''&gt;'')
           (replaceAll 60 (js ''&lt;'')
             (replaceAll 38 (js ''&amp;'') text))))"

text \<open>
  The statements that follow, in the order of the source. The replacement of
  \<open>/(<li>.*<\/li>)/gm\<close> is left out: its callback returns the match with every inner match
  replaced by \<open>$1\<close>, the group that spans that whole inner match, so it returns the match
  itself and the statement leaves \<open>html\<close> as it is.
\<close>

definition markdown :: "jstr \<Rightarrow> jstr" where
  "markdown html0 =
     (let html = codeBlocks html0;
          html = inlineCode html;
          html = bold html;
          html = italic html;
          html = linePrefix (js ''### '') (js ''<h3>'') (js ''</h3>'') True html;
          html = linePrefix (js ''## '') (js ''<h2>'') (js ''</h2>'') True html;
          html = linePrefix (js ''# '') (js ''<h1>'') (js ''</h1>'') True html;
          html = linePrefix (js ''- '') (js ''<li>'') (js ''</li>'') True html;
          html = wrapLists html;
          html = replaceAll 10 (js ''<br>'') html
      in html)"

text \<open>\<open>formatMessage(text)\<close>; \<open>None\<close> is \<open>null\<close> or \<open>undefined\<close>.\<close>

definition formatMessage :: "jstr option \<Rightarrow> jstr" where
  "formatMessage text =
     (case text of
        None \<Rightarrow> []
      | Some t \<Rightarrow> if t = [] then [] else markdown (escapeHtml t))"

section \<open>The page: global state and the message list\<close>

text \<open>
  Element ids: \<open>msg-${Date.now()}-${Math.random()}\<close>, \<open>stream-${Date.now()}\<close>, or none (the
  error messages carry no id).
\<close>

datatype elem_id = NoId | MsgId nat jstr | StreamId nat

datatype role = User | Assistant

datatype avatar = PersonAvatar | LlamaAvatar | WarningAvatar

text \<open>
  One child of \<open>messagesContainer\<close>: its id, the \<open>type\<close> in its class name, its avatar, the
  classes \<open>short\<close> and \<open>error-message\<close> and the attribute \<open>data-streaming\<close> of its
  \<open>.message-content\<close>, the markup of that content, and the memory indicators that follow it.
\<close>

record element =
  el_id :: elem_id
  el_class :: role
  el_avatar :: avatar
  el_short :: bool
  el_error :: bool
  el_streaming :: bool
  el_content :: jstr
  el_indicators :: "jstr list"

record chat =
  chat_id :: jstr
  chat_title :: jstr
  created_at :: jstr
  updated_at :: jstr

text \<open>The calls of \<open>fetch\<close>: the effect of the script on the server.\<close>

datatype request =
    GetChats
  | GetChat jstr
  | PostNewChat jstr
  | PostChatStream jstr jstr
  | DeleteChat jstr

text \<open>
  The three globals of the script, the parts of the page it writes, and the two effects it
  has on the outside: the requests issued and the alerts raised, oldest first. The side bar is
  redrawn from \<open>chats\<close> and \<open>currentChatId\<close> by \<open>renderChatList\<close> and holds nothing of its own.
\<close>

record state =
  currentChatId :: "jstr option"
  chats :: "chat list"
  isGenerating :: bool
  messagesContainer :: "element list"
  messageInput_value :: jstr
  sendButton_disabled :: bool
  modelStatus_text :: jstr
  chatTitle_text :: jstr
  emptyState_display :: jstr
  requests :: "request list"
  alerts :: "jstr list"

text \<open>
  One reading of the clock and of \<open>Math.random()\<close>: \<open>Date.now()\<close>, the random number as it
  prints, and \<open>new Date().toISOString()\<close>. A clock gives the successive readings of one run of
  a handler, numbered from \<open>0\<close> in the order in which the run takes them.
\<close>

record reading =
  date_now :: nat
  math_random :: jstr
  iso_string :: jstr

type_synonym clock = "nat \<Rightarrow> reading"

definition cursor :: jstr where
  \<open>cursor = js ''<span class="cursor">|</span>''\<close>

definition getElementById :: "element list \<Rightarrow> elem_id \<Rightarrow> element option" where
  "getElementById es i = (if i = NoId then None else find (\<lambda>e. el_id e = i) es)"

text \<open>The first element with the id, changed by \<open>f\<close>; the first element with the id, removed.\<close>

fun update_element :: "elem_id \<Rightarrow> (element \<Rightarrow> element) \<Rightarrow> element list \<Rightarrow> element list" where
  "update_element i f [] = []"
| "update_element i f (e # es) = (if el_id e = i then f e # es else e # update_element i f es)"

fun remove_element :: "elem_id \<Rightarrow> element list \<Rightarrow> element list" where
  "remove_element i [] = []"
| "remove_element i (e # es) = (if el_id e = i then es else e # remove_element i es)"

definition addMessageToUI :: "state \<Rightarrow> role \<Rightarrow> jstr \<Rightarrow> nat \<Rightarrow> reading \<Rightarrow> state" where
  "addMessageToUI s type content memoriesAdded now =
     (let memoryIndicator =
            (if type = Assistant \<and> memoriesAdded > 0 then [digit_str memoriesAdded] else []);
          isShort = (length content < 50 \<and> \<not> includes_str [10] content);
          messageDiv = \<lparr>el_id = MsgId (date_now now) (math_random now),
                         el_class = type,
                         el_avatar = (if type = User then PersonAvatar else LlamaAvatar),
                         el_short = isShort,
                         el_error = False,
                         el_streaming = False,
                         el_content = formatMessage (Some content),
                         el_indicators = memoryIndicator\<rparr>
      in s\<lparr>messagesContainer := messagesContainer s @ [messageDiv]\<rparr>)"

definition addStreamingMessagePlaceholder :: "state \<Rightarrow> reading \<Rightarrow> state \<times> elem_id" where
  "addStreamingMessagePlaceholder s now =
     (let messageDiv = \<lparr>el_id = StreamId (date_now now),
                         el_class = Assistant,
                         el_avatar = LlamaAvatar,
                         el_short = False,
                         el_error = False,
                         el_streaming = True,
                         el_content = [10] @ replicate 24 32 @ cursor @ [10] @ replicate 20 32,
                         el_indicators = []\<rparr>
      in (s\<lparr>messagesContainer := messagesContainer s @ [messageDiv]\<rparr>, el_id messageDiv))"

definition updateStreamingMessage :: "state \<Rightarrow> elem_id \<Rightarrow> jstr \<Rightarrow> state" where
  "updateStreamingMessage s messageId content =
     (case getElementById (messagesContainer s) messageId of
        None \<Rightarrow> s
      | Some messageElement \<Rightarrow>
          s\<lparr>messagesContainer :=
               update_element messageId
                 (\<lambda>e. e\<lparr>el_content := formatMessage (Some content) @ cursor\<rparr>)
                 (messagesContainer s)\<rparr>)"

text \<open>
  \<open>finalizeStreamingMessage\<close>. When \<open>memoriesAdded > 0\<close> throws, the statements before it have
  run and no indicator is added.
\<close>

definition finalizeStreamingMessage :: "'n runtime \<Rightarrow> state \<Rightarrow> elem_id \<Rightarrow> 'n json \<Rightarrow> state" where
  "finalizeStreamingMessage rt s messageId memoriesAdded =
     (case getElementById (messagesContainer s) messageId of
        None \<Rightarrow> s
      | Some messageElement \<Rightarrow>
          (let finalContent = replaceFirst cursor [] (innerHTML rt (el_content messageElement));
               text = (if textContent rt finalContent = [] then innerText rt finalContent
                       else textContent rt finalContent);
               isShort = (length text < 50 \<and> \<not> includes_str [10] text);
               memoryIndicator =
                 (case greater_than_zero rt memoriesAdded of
                    Inl e \<Rightarrow> []
                  | Inr False \<Rightarrow> []
                  | Inr True \<Rightarrow>
                      (case ToString rt memoriesAdded of Inl e \<Rightarrow> [] | Inr n \<Rightarrow> [n]))
           in s\<lparr>messagesContainer :=
                  update_element messageId
                    (\<lambda>e. e\<lparr>el_content := finalContent,
                            el_streaming := False,
                            el_short := (el_short e \<or> isShort),
                            el_indicators := el_indicators e @ memoryIndicator\<rparr>)
                    (messagesContainer s)\<rparr>))"

definition addErrorMessage :: "state \<Rightarrow> jstr \<Rightarrow> state" where
  "addErrorMessage s error =
     (let messageDiv = \<lparr>el_id = NoId,
                         el_class = Assistant,
                         el_avatar = WarningAvatar,
                         el_short = False,
                         el_error = True,
                         el_streaming = False,
                         el_content = [10] @ replicate 24 32 @ js ''Error: '' @ error
                                      @ [10] @ replicate 20 32,
                         el_indicators = []\<rparr>
      in s\<lparr>messagesContainer := messagesContainer s @ [messageDiv]\<rparr>)"

definition removeMessage :: "state \<Rightarrow> elem_id \<Rightarrow> state" where
  "removeMessage s messageId =
     (case getElementById (messagesContainer s) messageId of
        None \<Rightarrow> s
      | Some messageElement \<Rightarrow>
          s\<lparr>messagesContainer := remove_element messageId (messagesContainer s)\<rparr>)"

text \<open>\<open>updateMemoryDisplay(stats)\<close> builds a string and drops it; all it can do is throw.\<close>

definition updateMemoryDisplay :: "'n runtime \<Rightarrow> 'n json option \<Rightarrow> exn + unit" where
  "updateMemoryDisplay rt stats =
     (case stats of
        None \<Rightarrow> Inl TypeError
      | Some st \<Rightarrow>
          (case prop_string rt st (js ''facts'') of
             Inl e \<Rightarrow> Inl e
           | Inr facts \<Rightarrow>
               (case prop_string rt st (js ''experiences'') of
                  Inl e \<Rightarrow> Inl e
                | Inr experiences \<Rightarrow>
                    (case prop_string rt st (js ''topics'') of
                       Inl e \<Rightarrow> Inl e
                     | Inr topics \<Rightarrow> Inr ()))))"

section \<open>The stream loop of sendMessage\<close>

text \<open>How a piece of the handler's body ends: it falls through, or it executes \<open>return\<close>.\<close>

datatype ('a, 'b) flow = Continue 'a | Return 'b

text \<open>
  The body of the inner loop once \<open>line\<close> has been cut from the buffer. The state comes with
  the local \<open>fullResponse\<close>. \<open>if truthy rt token then token else None\<close> is the token when
  \<open>if (parsed.token)\<close> takes its first branch. Whatever the inner \<open>try\<close> throws (the SyntaxError of
  \<open>JSON.parse\<close>, the TypeError of a property read on \<open>null\<close>, of a conversion to a string or
  of \<open>updateMemoryDisplay\<close>) is caught and logged, and the loop goes on.
\<close>

definition process_line ::
  "'n runtime \<Rightarrow> elem_id \<Rightarrow> state \<times> jstr \<Rightarrow> jstr \<Rightarrow> (state \<times> jstr, state) flow" where
  "process_line rt assistantMessageId sf line =
     (let s = fst sf; fullResponse = snd sf in
      if prefix (js ''data: '') line
      then (let data = drop 6 line in
            if data = js ''[DONE]'' then Return s
            else (case JSON_parse rt data of
                    None \<Rightarrow> Continue (s, fullResponse)
                  | Some parsed \<Rightarrow>
                      (case get_prop parsed (js ''token'') of
                         Inl e \<Rightarrow> Continue (s, fullResponse)
                       | Inr token \<Rightarrow>
                           (case (if truthy rt token then token else None) of
                              Some tok \<Rightarrow>
                                (case ToString rt tok of
                                   Inl e \<Rightarrow> Continue (s, fullResponse)
                                 | Inr fragment \<Rightarrow>
                                     (let fullResponse' = fullResponse @ fragment
                                      in Continue (updateStreamingMessage s assistantMessageId
                                                     fullResponse',
                                                   fullResponse')))
                            | None \<Rightarrow>
                                (case get_prop parsed (js ''memories_added'') of
                                   Inl e \<Rightarrow> Continue (s, fullResponse)
                                 | Inr None \<Rightarrow> Continue (s, fullResponse)
                                 | Inr (Some memories_added) \<Rightarrow>
                                     (let s' = finalizeStreamingMessage rt s assistantMessageId
                                                 memories_added
                                      in case get_prop parsed (js ''memory_stats'') of
                                           Inl e \<Rightarrow> Continue (s', fullResponse)
                                         | Inr stats \<Rightarrow>
                                             (case updateMemoryDisplay rt stats of
                                                Inl e \<Rightarrow> Continue (s', fullResponse)
                                              | Inr u \<Rightarrow> Continue (s', fullResponse))))))))
      else Continue (s, fullResponse))"

text \<open>
  The inner loop, \<open>while (buffer.includes('\n\n'))\<close>: it ends with the state, \<open>fullResponse\<close>
  and what is left of the buffer, or with the \<open>return\<close> of the \<open>[DONE]\<close> frame.
\<close>

function process_buffer ::
  "'n runtime \<Rightarrow> elem_id \<Rightarrow> state \<times> jstr \<Rightarrow> jstr \<Rightarrow> (state \<times> jstr \<times> jstr, state) flow" where
  "process_buffer rt assistantMessageId sf buffer =
     (case indexOf [10, 10] buffer of
        None \<Rightarrow> Continue (fst sf, snd sf, buffer)
      | Some doubleNewlineIndex \<Rightarrow>
          (let line = trim (take doubleNewlineIndex buffer);
               buffer' = drop (doubleNewlineIndex + 2) buffer
           in case process_line rt assistantMessageId sf line of
                Return s' \<Rightarrow> Return s'
              | Continue sf' \<Rightarrow> process_buffer rt assistantMessageId sf' buffer'))"
  by pat_completeness auto
termination
proof (relation "measure (\<lambda>(rt, mid, sf, buffer). length buffer)")
  show "wf (measure (\<lambda>(rt :: 'n runtime, mid :: elem_id, sf :: state \<times> jstr, buffer :: jstr).
              length buffer))"
    by simp
next
  fix rt :: "'n runtime" and mid :: elem_id and sf sf' :: "state \<times> jstr"
    and buffer line buffer' :: jstr and i :: nat
  assume i: "indexOf [10, 10] buffer = Some i" and b: "buffer' = drop (i + 2) buffer"
  from indexOf_bound [OF i] have "i + 2 \<le> length buffer" by simp
  then show "((rt, mid, sf', buffer'), (rt, mid, sf, buffer))
      \<in> measure (\<lambda>(rt, mid, sf, buffer). length buffer)"
    unfolding b by simp
qed

declare process_buffer.simps [simp del]

text \<open>
  The outer loop, \<open>while (true)\<close>, over the chunks that \<open>reader.read()\<close> delivers before the
  stream ends; a chunk is the text \<open>decoder.decode(value, {stream: true})\<close> returns for
  one read. The triple is the state, \<open>fullResponse\<close> and \<open>buffer\<close>.
\<close>

fun read_loop ::
  "'n runtime \<Rightarrow> elem_id \<Rightarrow> state \<times> jstr \<times> jstr \<Rightarrow> jstr list
     \<Rightarrow> (state \<times> jstr \<times> jstr, state) flow" where
  "read_loop rt assistantMessageId (s, fullResponse, buffer) [] =
     Continue (s, fullResponse, buffer)"
| "read_loop rt assistantMessageId (s, fullResponse, buffer) (chunk # reads) =
     (case process_buffer rt assistantMessageId (s, fullResponse) (buffer @ chunk) of
        Return s' \<Rightarrow> Return s'
      | Continue st' \<Rightarrow> read_loop rt assistantMessageId st' reads)"

section \<open>The handlers\<close>

text \<open>What the server answers to each request, as the handler sees it.\<close>

record new_chat_data =
  nc_error :: "jstr option"
  nc_chat_id :: jstr
  nc_title :: jstr
  nc_response :: jstr
  nc_memories_added :: nat
  nc_memory_stats_throws :: "jstr option"

text \<open>
  \<open>POST /new-chat\<close>: \<open>fetch\<close>, \<open>response.json()\<close> or the reading of \<open>data.error\<close> throws an
  error with the given message, or the body decodes to the given object. In a body without
  \<open>error\<close> the fields \<open>chat_id\<close>, \<open>title\<close> and \<open>response\<close> are strings and \<open>memories_added\<close> is
  a count, \<open>0\<close> when it is missing. \<open>nc_memory_stats_throws\<close> is the message of the error that
  \<open>updateMemoryDisplay(data.memory_stats)\<close> throws, as it does when \<open>memory_stats\<close> is missing;
  the function has no other effect.
\<close>

datatype new_chat_reply = NewChatThrows jstr | NewChatData new_chat_data

text \<open>How the body of a streamed response ends: \<open>read()\<close> reports \<open>done\<close>, or it throws.\<close>

datatype stream_end = Closed | ReadThrows jstr

text \<open>
  \<open>POST /chat-stream\<close>: \<open>fetch\<close> throws, or the response arrives with its \<open>ok\<close> flag, its
  status, and a body read as the given chunks and then the given end.
\<close>

datatype stream_reply = FetchThrows jstr | Response bool nat "jstr list" stream_end

datatype delete_reply = DeleteThrows jstr | DeleteResponse bool

datatype chats_reply = ChatsThrows | ChatsData "chat list option"

definition loadChatList :: "chats_reply \<Rightarrow> state \<Rightarrow> state" where
  "loadChatList reply s =
     (let s = s\<lparr>requests := requests s @ [GetChats]\<rparr> in
      case reply of
        ChatsThrows \<Rightarrow> s
      | ChatsData data_chats \<Rightarrow>
          s\<lparr>chats := (case data_chats of Some cs \<Rightarrow> cs | None \<Rightarrow> [])\<rparr>)"

text \<open>
  \<open>selectChat\<close> up to its first \<open>await\<close>, the \<open>fetch\<close> of \<open>loadChatMessages\<close>; what it does once
  the messages have arrived is a later event of the page.
\<close>

definition selectChat_begin :: "state \<Rightarrow> jstr \<Rightarrow> jstr \<Rightarrow> state" where
  "selectChat_begin s chatId title =
     (if Some chatId = currentChatId s then s
      else s\<lparr>currentChatId := Some chatId,
             chatTitle_text := title,
             requests := requests s @ [GetChat chatId]\<rparr>)"

text \<open>The \<open>finally\<close> block of \<open>createNewChatWithMessage\<close> and of \<open>sendMessage\<close>.\<close>

definition finally_ready :: "state \<Rightarrow> state" where
  "finally_ready s =
     s\<lparr>isGenerating := False,
       sendButton_disabled := False,
       modelStatus_text := js ''Llama 3 8B Q4_K_M Ready''\<rparr>"

text \<open>
  \<open>createNewChatWithMessage\<close>, run to its end against the answer of the server. It calls
  \<open>selectChat\<close> without awaiting it, so that call runs up to its first \<open>await\<close>.
\<close>

definition createNewChatWithMessage ::
  "clock \<Rightarrow> new_chat_reply \<Rightarrow> state \<Rightarrow> jstr \<Rightarrow> state" where
  "createNewChatWithMessage clk reply s message =
     (let s = s\<lparr>messagesContainer := []\<rparr>;
          s = addMessageToUI s User message 0 (clk 0);
          s = s\<lparr>messageInput_value := [],
                 isGenerating := True,
                 sendButton_disabled := True,
                 modelStatus_text := js ''Creating new chat...'',
                 requests := requests s @ [PostNewChat (trim message)]\<rparr>;
          s = (case reply of
                 NewChatThrows error_message \<Rightarrow>
                   addErrorMessage s (js ''Failed to create new chat: '' @ error_message)
               | NewChatData d \<Rightarrow>
                   (case (if nc_error d = Some [] then None else nc_error d) of
                      Some error \<Rightarrow> addErrorMessage s error
                    | None \<Rightarrow>
                        (let newChat = \<lparr>chat_id = nc_chat_id d,
                                         chat_title = nc_title d,
                                         created_at = iso_string (clk 1),
                                         updated_at = iso_string (clk 2)\<rparr>;
                             s = s\<lparr>chats := newChat # chats s\<rparr>;
                             s = selectChat_begin s (nc_chat_id d) (nc_title d);
                             s = addMessageToUI s Assistant (nc_response d)
                                   (nc_memories_added d) (clk 3)
                         in (case nc_memory_stats_throws d of
                               None \<Rightarrow> s
                             | Some error_message \<Rightarrow>
                                 addErrorMessage s
                                   (js ''Failed to create new chat: '' @ error_message)))))
      in finally_ready s)"

text \<open>
  \<open>chats.findIndex(c => c.id === currentChatId)\<close>, with \<open>None\<close> for \<open>-1\<close>; a \<open>currentChatId\<close> of
  \<open>null\<close> equals no id.
\<close>

fun findIndex :: "jstr option \<Rightarrow> chat list \<Rightarrow> nat option" where
  "findIndex cid [] = None"
| "findIndex cid (c # cs) =
     (if Some (chat_id c) = cid then Some 0 else map_option Suc (findIndex cid cs))"

text \<open>The statements after the loop, under the comment ``Update chat in sidebar (move to top)''.\<close>

definition move_to_top :: "reading \<Rightarrow> state \<Rightarrow> state" where
  "move_to_top now s =
     (case findIndex (currentChatId s) (chats s) of
        None \<Rightarrow> s
      | Some chatIndex \<Rightarrow>
          (case drop chatIndex (chats s) of
             [] \<Rightarrow> s
           | chat # after \<Rightarrow>
               s\<lparr>chats := chat\<lparr>updated_at := iso_string now\<rparr> # take chatIndex (chats s) @ after\<rparr>))"

text \<open>
  \<open>sendMessage\<close> from its guard to the call of \<open>fetch\<close>, for a \<open>currentChatId\<close> that is set:
  the state in which the turn is in flight, and the id of the placeholder.
\<close>

definition sendMessage_begin :: "clock \<Rightarrow> state \<Rightarrow> jstr \<Rightarrow> jstr \<Rightarrow> state \<times> elem_id" where
  "sendMessage_begin clk s message chatId =
     (let s = addMessageToUI s User message 0 (clk 0);
          s = s\<lparr>messageInput_value := []\<rparr>;
          (s, assistantMessageId) = addStreamingMessagePlaceholder s (clk 1)
      in (s\<lparr>isGenerating := True,
             sendButton_disabled := True,
             modelStatus_text := js ''Generating...'',
             requests := requests s @ [PostChatStream message chatId]\<rparr>,
          assistantMessageId))"

text \<open>How the \<open>try\<close> block of \<open>sendMessage\<close> ends.\<close>

datatype outcome = Completed state | Returned state | Threw state jstr

definition sendMessage_try ::
  "'n runtime \<Rightarrow> clock \<Rightarrow> stream_reply \<Rightarrow> elem_id \<Rightarrow> state \<Rightarrow> outcome" where
  "sendMessage_try rt clk reply assistantMessageId s =
     (case reply of
        FetchThrows error_message \<Rightarrow> Threw s error_message
      | Response ok status reads end \<Rightarrow>
          if \<not> ok then Threw s (js ''HTTP '' @ digit_str status)
          else (case read_loop rt assistantMessageId (s, [], []) reads of
                  Return s' \<Rightarrow> Returned s'
                | Continue (s', fullResponse, buffer) \<Rightarrow>
                    (case end of
                       ReadThrows error_message \<Rightarrow> Threw s' error_message
                     | Closed \<Rightarrow> Completed (move_to_top (clk 2) s'))))"

definition sendMessage_catch :: "elem_id \<Rightarrow> outcome \<Rightarrow> state" where
  "sendMessage_catch assistantMessageId out =
     (case out of
        Completed s \<Rightarrow> s
      | Returned s \<Rightarrow> s
      | Threw s error_message \<Rightarrow>
          addErrorMessage (removeMessage s assistantMessageId)
            (js ''Connection error: '' @ error_message))"

text \<open>
  \<open>sendMessage\<close>, run to its end against the answer of the server, no other handler of the
  page running in between.
\<close>

definition sendMessage ::
  "'n runtime \<Rightarrow> clock \<Rightarrow> new_chat_reply \<Rightarrow> stream_reply \<Rightarrow> state \<Rightarrow> state" where
  "sendMessage rt clk new_chat stream s =
     (let message = trim (messageInput_value s) in
      if message = [] \<or> isGenerating s then s
      else (case (if currentChatId s = Some [] then None else currentChatId s) of
              None \<Rightarrow> createNewChatWithMessage clk new_chat s message
            | Some chatId \<Rightarrow>
                (let (s, assistantMessageId) = sendMessage_begin clk s message chatId
                 in finally_ready
                      (sendMessage_catch assistantMessageId
                         (sendMessage_try rt clk stream assistantMessageId s)))))"

text \<open>\<open>deleteChat\<close>; \<open>confirmed\<close> is the answer of the user to \<open>confirm\<close>.\<close>

definition deleteChat :: "bool \<Rightarrow> delete_reply \<Rightarrow> state \<Rightarrow> jstr \<Rightarrow> state" where
  "deleteChat confirmed reply s chatId =
     (if \<not> confirmed then s
      else (let s = s\<lparr>requests := requests s @ [DeleteChat chatId]\<rparr> in
            case reply of
              DeleteThrows error_message \<Rightarrow>
                s\<lparr>alerts := alerts s @ [js ''Error deleting chat: '' @ error_message]\<rparr>
            | DeleteResponse ok \<Rightarrow>
                if ok
                then (let s = s\<lparr>chats := filter (\<lambda>c. chat_id c \<noteq> chatId) (chats s)\<rparr> in
                      if Some chatId = currentChatId s
                      then s\<lparr>currentChatId := None,
                             chatTitle_text := js ''Llama 3 8B Multi-Chat'',
                             messagesContainer := [],
                             emptyState_display := js ''flex''\<rparr>
                      else s)
                else s\<lparr>alerts := alerts s @ [js ''Failed to delete chat'']\<rparr>))"

section \<open>Notions used to state the properties\<close>

text \<open>
  The complete frames of a text, in order: the trimmed pieces that end at a \<open>\n\n\<close> boundary,
  each boundary taken at its first occurrence; and the text after the last boundary, which
  is not a frame yet.
\<close>

function frames_of :: "jstr \<Rightarrow> jstr list" where
  "frames_of str =
     (case indexOf [10, 10] str of
        None \<Rightarrow> []
      | Some i \<Rightarrow> trim (take i str) # frames_of (drop (i + 2) str))"
  by pat_completeness auto
termination
proof (relation "measure length")
  show "wf (measure length)" by simp
next
  fix str :: jstr and i :: nat
  assume "indexOf [10, 10] str = Some i"
  from indexOf_bound [OF this] show "(drop (i + 2) str, str) \<in> measure length" by simp
qed

declare frames_of.simps [simp del]

function unframed :: "jstr \<Rightarrow> jstr" where
  "unframed str =
     (case indexOf [10, 10] str of
        None \<Rightarrow> str
      | Some i \<Rightarrow> unframed (drop (i + 2) str))"
  by pat_completeness auto
termination
proof (relation "measure length")
  show "wf (measure length)" by simp
next
  fix str :: jstr and i :: nat
  assume "indexOf [10, 10] str = Some i"
  from indexOf_bound [OF this] show "(drop (i + 2) str, str) \<in> measure length" by simp
qed

declare unframed.simps [simp del]

text \<open>The loop body run over a list of frames, stopping at the first \<open>return\<close>.\<close>

fun process_lines ::
  "'n runtime \<Rightarrow> elem_id \<Rightarrow> state \<times> jstr \<Rightarrow> jstr list \<Rightarrow> (state \<times> jstr, state) flow" where
  "process_lines rt mid sf [] = Continue sf"
| "process_lines rt mid sf (line # ls) =
     (case process_line rt mid sf line of
        Return s' \<Rightarrow> Return s'
      | Continue sf' \<Rightarrow> process_lines rt mid sf' ls)"

text \<open>
  The fragment a frame adds to \<open>fullResponse\<close> when the loop body takes it for a token event:
  a \<open>data: \<close> frame other than \<open>[DONE]\<close> whose payload decodes to a value with a truthy \<open>token\<close>
  that converts to a string.
\<close>

definition token_text :: "'n runtime \<Rightarrow> jstr \<Rightarrow> jstr option" where
  "token_text rt line =
     (if prefix (js ''data: '') line \<and> drop 6 line \<noteq> js ''[DONE]''
      then (case JSON_parse rt (drop 6 line) of
              None \<Rightarrow> None
            | Some parsed \<Rightarrow>
                (case get_prop parsed (js ''token'') of
                   Inl e \<Rightarrow> None
                 | Inr token \<Rightarrow>
                     (case (if truthy rt token then token else None) of
                        None \<Rightarrow> None
                      | Some tok \<Rightarrow>
                          (case ToString rt tok of Inl e \<Rightarrow> None | Inr fragment \<Rightarrow> Some fragment))))
      else None)"

text \<open>The fragments of the token events among a list of frames, in order.\<close>

definition tokens :: "'n runtime \<Rightarrow> jstr list \<Rightarrow> jstr list" where
  "tokens rt ls = List.map_filter (token_text rt) ls"

text \<open>The entity that stands for a character in escaped HTML; any other character stands for itself.\<close>

definition html_entity :: "nat \<Rightarrow> jstr" where
  \<open>html_entity c =
     (if c = 38 then js ''&amp;''
      else if c = 60 then js ''&lt;''
      else if c = 62 then js ''&gt;''
      else if c = 34 then js ''&quot;''
      else if c = 39 then js ''&#x27;''
      else [c])\<close>

text \<open>The tags that \<open>formatMessage\<close> writes.\<close>

definition tags :: "jstr list" where
  \<open>tags =
     [js ''<div class="code-block">'', js ''<div class="code-block compact">'',
      js ''<pre>'', js ''</pre>'', js ''<code>'', js ''</code>'', js ''</div>'',
      js ''<code class="inline-code">'',
      js ''<strong>'', js ''</strong>'', js ''<em>'', js ''</em>'',
      js ''<h3>'', js ''</h3>'', js ''<h2>'', js ''</h2>'', js ''<h1>'', js ''</h1>'',
      js ''<li>'', js ''</li>'', js ''<ul>'', js ''</ul>'', js ''<br>'']\<close>

text \<open>
  Text made of characters other than \<open><\<close> and \<open>>\<close> and of whole tags from that list: every
  angle bracket in it belongs to one of these tags.
\<close>

inductive markup :: "jstr \<Rightarrow> bool" where
  markup_Nil: "markup []"
| markup_Chr: "c \<noteq> 60 \<Longrightarrow> c \<noteq> 62 \<Longrightarrow> markup s \<Longrightarrow> markup (c # s)"
| markup_Tag: "t \<in> set tags \<Longrightarrow> markup s \<Longrightarrow> markup (t @ s)"

code_pred markup .

text \<open>Text without angle brackets.\<close>

definition angle_free :: "jstr \<Rightarrow> bool" where
  "angle_free s \<longleftrightarrow> 60 \<notin> set s \<and> 62 \<notin> set s"

text \<open>The active view: the open chat, the title, the messages and the display of the empty state.\<close>

definition active_view :: "state \<Rightarrow> jstr option \<times> jstr \<times> element list \<times> jstr" where
  "active_view s = (currentChatId s, chatTitle_text s, messagesContainer s, emptyState_display s)"

text \<open>The number of error messages on display.\<close>

definition error_count :: "state \<Rightarrow> nat" where
  "error_count s = length (filter el_error (messagesContainer s))"

text \<open>
  \<open>s'\<close> differs from \<open>s\<close> at most in the message list, and there neither in the ids nor in
  which messages are error messages.
\<close>

definition same_page :: "state \<Rightarrow> state \<Rightarrow> bool" where
  "same_page s s' \<longleftrightarrow>
     s' = s\<lparr>messagesContainer := messagesContainer s'\<rparr>
     \<and> map el_id (messagesContainer s') = map el_id (messagesContainer s)
     \<and> map el_error (messagesContainer s') = map el_error (messagesContainer s)"

section \<open>A page and a runtime for the examples\<close>

text \<open>
  A runtime that decodes the one JSON payload of the examples below as \<open>JSON.parse\<close> does and
  rejects the payload \<open>{oops\<close>, with natural numbers for the numbers. Its comparison is that
  of JavaScript on numbers, and its three readings of an element are those of a browser on
  markup without tags and character references.
\<close>

definition example_runtime :: "nat runtime" where
  \<open>example_runtime =
     \<lparr>JSON_parse = map_of [(js ''{"token":"Hi"}'', JObj [(js ''token'', JStr (js ''Hi''))])],
      Number_toString = digit_str,
      Number_toBoolean = (\<lambda>n. n \<noteq> 0),
      greater_than_zero = (\<lambda>v. case v of JNum n \<Rightarrow> Inr (0 < n) | _ \<Rightarrow> Inr False),
      innerHTML = (\<lambda>h. h),
      textContent = (\<lambda>h. h),
      innerText = (\<lambda>h. h)\<rparr>\<close>

definition chat_a :: chat where
  "chat_a = \<lparr>chat_id = js ''a'', chat_title = js ''A'', created_at = js ''t'', updated_at = js ''t''\<rparr>"

definition chat_b :: chat where
  "chat_b = \<lparr>chat_id = js ''b'', chat_title = js ''B'', created_at = js ''t'', updated_at = js ''t''\<rparr>"

text \<open>Two chats in the side bar, the second one open, and a message typed.\<close>

definition example_state :: state where
  "example_state =
     \<lparr>currentChatId = Some (js ''b''),
      chats = [chat_a, chat_b],
      isGenerating = False,
      messagesContainer = [],
      messageInput_value = js ''hello'',
      sendButton_disabled = False,
      modelStatus_text = js ''Llama 3 8B Q4_K_M Ready'',
      chatTitle_text = js ''B'',
      emptyState_display = js ''none'',
      requests = [],
      alerts = []\<rparr>"

definition example_clock :: clock where
  "example_clock =
     (\<lambda>n. \<lparr>date_now = 1000 + n, math_random = js ''0.5'', iso_string = js ''later''\<rparr>)"

definition later_clock :: clock where
  "later_clock =
     (\<lambda>n. \<lparr>date_now = 2000 + n, math_random = js ''0.25'', iso_string = js ''much later''\<rparr>)"

definition token_frame :: jstr where
  \<open>token_frame = js ''data: {"token":"Hi"}''\<close>

definition done_frame :: jstr where
  "done_frame = js ''data: [DONE]''"

definition no_new_chat :: new_chat_reply where
  "no_new_chat = NewChatThrows []"

definition example_new_chat :: new_chat_data where
  "example_new_chat =
     \<lparr>nc_error = None, nc_chat_id = js ''c'', nc_title = js ''C'', nc_response = js ''Hi'',
      nc_memories_added = 1, nc_memory_stats_throws = None\<rparr>"

text \<open>The page once \<open>hello\<close> has been sent to the open chat and the answer is awaited.\<close>

definition in_flight_state :: state where
  "in_flight_state = fst (sendMessage_begin example_clock example_state (js ''hello'') (js ''b''))"

text \<open>That page with a second message typed; and with the other chat selected first.\<close>

definition busy_state :: state where
  "busy_state = in_flight_state\<lparr>messageInput_value := js ''again''\<rparr>"

definition other_chat_state :: state where
  "other_chat_state =
     (selectChat_begin in_flight_state (js ''a'') (js ''A''))\<lparr>messageInput_value := js ''again''\<rparr>"

section \<open>The stream parser does not depend on how the stream is cut into reads\<close>

lemma indexOf_append:
  "indexOf pat b = Some i \<Longrightarrow> indexOf pat (b @ c) = Some i"
proof (induction b arbitrary: i)
  case Nil
  then show ?case by (cases c) (simp_all split: if_splits)
next
  case (Cons x xs)
  show ?case
  proof (cases "prefix pat (x # xs)")
    case True
    then have "prefix pat ((x # xs) @ c)" by (rule prefix_prefix)
    with True Cons.prems show ?thesis by simp
  next
    case False
    with Cons.prems obtain j where j: "indexOf pat xs = Some j" "i = Suc j" by auto
    from indexOf_bound [OF j(1)] have "length pat \<le> length (x # xs)" by simp
    with False have "\<not> prefix pat ((x # xs) @ c)"
      using prefix_length_prefix [of pat "(x # xs) @ c" "x # xs"] by auto
    with j Cons.IH show ?thesis by simp
  qed
qed

lemma process_buffer_no_boundary:
  "indexOf [10, 10] b = None \<Longrightarrow> process_buffer rt mid sf b = Continue (fst sf, snd sf, b)"
  by (simp add: process_buffer.simps [of rt mid sf b])

lemma process_buffer_append:
  "process_buffer rt mid sf (b @ c) =
     (case process_buffer rt mid sf b of
        Return s' \<Rightarrow> Return s'
      | Continue (s', full', b') \<Rightarrow> process_buffer rt mid (s', full') (b' @ c))"
proof (induction rt mid sf b rule: process_buffer.induct)
  case (1 rt mid sf b)
  show ?case
  proof (cases "indexOf [10, 10] b")
    case None
    then show ?thesis by (simp add: process_buffer_no_boundary)
  next
    case (Some i)
    from indexOf_bound [OF Some] have len: "i + 2 \<le> length b" by simp
    have app: "indexOf [10, 10] (b @ c) = Some i" by (rule indexOf_append [OF Some])
    have tk: "take i (b @ c) = take i b" using len by simp
    have dr: "drop (i + 2) (b @ c) = drop (i + 2) b @ c" using len by simp
    have L: "process_buffer rt mid sf (b @ c) =
        (case process_line rt mid sf (trim (take i b)) of
           Return s' \<Rightarrow> Return s'
         | Continue sf' \<Rightarrow> process_buffer rt mid sf' (drop (i + 2) b @ c))"
      by (subst process_buffer.simps) (simp only: app option.case Let_def tk dr)
    have R: "process_buffer rt mid sf b =
        (case process_line rt mid sf (trim (take i b)) of
           Return s' \<Rightarrow> Return s'
         | Continue sf' \<Rightarrow> process_buffer rt mid sf' (drop (i + 2) b))"
      by (subst process_buffer.simps) (simp only: Some option.case Let_def)
    show ?thesis
    proof (cases "process_line rt mid sf (trim (take i b))")
      case (Return s')
      then show ?thesis by (simp add: L R)
    next
      case (Continue sf')
      from "1.IH" [OF Some refl refl Continue]
      show ?thesis by (simp add: L R Continue)
    qed
  qed
qed

lemma process_buffer_rest:
  "process_buffer rt mid sf b = Continue (s', full', b') \<Longrightarrow> indexOf [10, 10] b' = None"
proof (induction rt mid sf b rule: process_buffer.induct)
  case (1 rt mid sf b)
  show ?case
  proof (cases "indexOf [10, 10] b")
    case None
    with "1.prems" show ?thesis by (simp add: process_buffer_no_boundary)
  next
    case (Some i)
    show ?thesis
    proof (cases "process_line rt mid sf (trim (take i b))")
      case (Return s'')
      with "1.prems" Some show ?thesis by (simp add: process_buffer.simps [of rt mid sf b])
    next
      case (Continue sf')
      with "1.prems" Some have "process_buffer rt mid sf' (drop (i + 2) b) = Continue (s', full', b')"
        by (simp add: process_buffer.simps [of rt mid sf b])
      from "1.IH" [OF Some refl refl Continue this] show ?thesis .
    qed
  qed
qed

lemma read_loop_concat:
  "indexOf [10, 10] buffer = None \<Longrightarrow>
   read_loop rt mid (s, full, buffer) reads = process_buffer rt mid (s, full) (buffer @ concat reads)"
proof (induction reads arbitrary: s full buffer)
  case Nil
  then show ?case by (simp add: process_buffer_no_boundary)
next
  case (Cons chunk reads)
  show ?case
  proof (cases "process_buffer rt mid (s, full) (buffer @ chunk)")
    case (Return s')
    then show ?thesis
      using process_buffer_append [of rt mid "(s, full)" "buffer @ chunk" "concat reads"]
      by simp
  next
    case (Continue st)
    obtain s' full' b' where st: "st = (s', full', b')" by (cases st)
    from Continue st have "indexOf [10, 10] b' = None" by (auto dest: process_buffer_rest)
    from Cons.IH [OF this] Continue st show ?thesis
      using process_buffer_append [of rt mid "(s, full)" "buffer @ chunk" "concat reads"]
      by simp
  qed
qed


lemma process_buffer_frames:
  "process_buffer rt mid sf b =
     (case process_lines rt mid sf (frames_of b) of
        Return s' \<Rightarrow> Return s'
      | Continue sf' \<Rightarrow> Continue (fst sf', snd sf', unframed b))"
proof (induction rt mid sf b rule: process_buffer.induct)
  case (1 rt mid sf b)
  show ?case
  proof (cases "indexOf [10, 10] b")
    case None
    then show ?thesis
      by (simp add: process_buffer_no_boundary frames_of.simps [of b] unframed.simps [of b])
  next
    case (Some i)
    have R: "process_buffer rt mid sf b =
        (case process_line rt mid sf (trim (take i b)) of
           Return s' \<Rightarrow> Return s'
         | Continue sf' \<Rightarrow> process_buffer rt mid sf' (drop (i + 2) b))"
      by (subst process_buffer.simps) (simp only: Some option.case Let_def)
    have F: "frames_of b = trim (take i b) # frames_of (drop (i + 2) b)"
      by (subst frames_of.simps) (simp only: Some option.case)
    have U: "unframed b = unframed (drop (i + 2) b)"
      by (subst unframed.simps) (simp only: Some option.case)
    show ?thesis
    proof (cases "process_line rt mid sf (trim (take i b))")
      case (Return s')
      then show ?thesis by (simp add: R F)
    next
      case (Continue sf')
      from "1.IH" [OF Some refl refl Continue]
      show ?thesis by (simp add: R F U Continue split: flow.splits)
    qed
  qed
qed

text \<open>
  C3. The read loop, started with an empty buffer, treats two sequences of reads alike when
  they carry the same text: it returns the same state, response and buffer, or the same state
  at \<open>[DONE]\<close>, and so does the whole of \<open>sendMessage\<close>. What it processes is the list of the
  complete frames of that text, each once and in order, whatever the cut: a frame that spans
  several reads waits in the buffer, several frames in one read are all processed, and a
  boundary is consumed where it is found, also when a read ends in it or in the middle of it.
\<close>

theorem read_loop_chunking:
  assumes "concat reads1 = concat reads2"
  shows "read_loop rt mid (s, full, []) reads1 = read_loop rt mid (s, full, []) reads2
    \<and> read_loop rt mid (s, full, []) reads1 =
        (case process_lines rt mid (s, full) (frames_of (concat reads1)) of
           Return s' \<Rightarrow> Return s'
         | Continue sf' \<Rightarrow> Continue (fst sf', snd sf', unframed (concat reads1)))
    \<and> sendMessage rt clk new_chat (Response ok status reads1 fin) s0 =
        sendMessage rt clk new_chat (Response ok status reads2 fin) s0"
proof -
  have none: "indexOf [10, 10] [] = None" by simp
  have eq: "read_loop rt mid (s, full, []) reads = process_buffer rt mid (s, full) (concat reads)"
    for mid s full reads
    using read_loop_concat [OF none, of rt mid s full reads] by simp
  have one: "read_loop rt mid (s, full, []) reads1 = read_loop rt mid (s, full, []) reads2"
    for mid s full
    by (simp only: eq assms)
  have two: "read_loop rt mid (s, full, []) reads1 =
        (case process_lines rt mid (s, full) (frames_of (concat reads1)) of
           Return s' \<Rightarrow> Return s'
         | Continue sf' \<Rightarrow> Continue (fst sf', snd sf', unframed (concat reads1)))"
    by (simp only: eq process_buffer_frames)
  have three: "sendMessage_try rt clk (Response ok status reads1 fin) mid s =
      sendMessage_try rt clk (Response ok status reads2 fin) mid s" for mid s
    by (simp add: sendMessage_try_def one)
  have "sendMessage rt clk new_chat (Response ok status reads1 fin) s0 =
        sendMessage rt clk new_chat (Response ok status reads2 fin) s0"
    unfolding sendMessage_def three by (rule refl)
  with one two show ?thesis by blast
qed

theorem read_loop_chunking_witness:
  "concat [token_frame @ [10], [10] @ done_frame @ [10, 10]]
     = concat [token_frame @ [10, 10] @ done_frame, [10, 10]]
   \<and> read_loop example_runtime (StreamId 1001) (example_state, [], [])
         [token_frame @ [10], [10] @ done_frame @ [10, 10]]
     = read_loop example_runtime (StreamId 1001) (example_state, [], [])
         [token_frame @ [10, 10] @ done_frame, [10, 10]]"
  using read_loop_chunking
    [of "[token_frame @ [10], [10] @ done_frame @ [10, 10]]"
        "[token_frame @ [10, 10] @ done_frame, [10, 10]]"
        example_runtime "StreamId 1001" example_state "[]"]
  by simp

section \<open>Malformed frames\<close>

lemma process_line_malformed:
  assumes "prefix (js ''data: '') line" and "drop 6 line \<noteq> js ''[DONE]''"
    and "JSON_parse rt (drop 6 line) = None"
  shows "process_line rt mid (s, full) line = Continue (s, full)"
  using assms by (simp add: process_line_def)

text \<open>
  C10. A frame whose \<open>data: \<close> payload is not \<open>[DONE]\<close> and does not parse as JSON is skipped:
  the loop body neither returns nor throws, the state of the page (the displayed message with
  it) and \<open>fullResponse\<close> are as before, and the loops go on with the frames that follow
  as if the frame had not been there. \<open>raw\<close> is the frame as it stands in the buffer, before
  the boundary that ends it.
\<close>

theorem malformed_frame_skipped:
  assumes "prefix (js ''data: '') (trim raw)"
    and "drop 6 (trim raw) \<noteq> js ''[DONE]''"
    and "JSON_parse rt (drop 6 (trim raw)) = None"
    and "indexOf [10, 10] (raw @ [10, 10]) = Some (length raw)"
  shows "process_line rt mid (s, full) (trim raw) = Continue (s, full)
    \<and> process_lines rt mid (s, full) (trim raw # ls) = process_lines rt mid (s, full) ls
    \<and> process_buffer rt mid (s, full) (raw @ [10, 10] @ rest) = process_buffer rt mid (s, full) rest
    \<and> read_loop rt mid (s, full, []) ((raw @ [10, 10]) # reads) = read_loop rt mid (s, full, []) reads"
proof -
  have one: "process_line rt mid (s, full) (trim raw) = Continue (s, full)"
    by (rule process_line_malformed [OF assms(1-3)])
  have idx: "indexOf [10, 10] (raw @ [10, 10] @ rest) = Some (length raw)"
    using indexOf_append [OF assms(4), of rest] by simp
  have three: "process_buffer rt mid (s, full) (raw @ [10, 10] @ rest) =
      process_buffer rt mid (s, full) rest" for rest
  proof -
    have idx: "indexOf [10, 10] (raw @ [10, 10] @ rest) = Some (length raw)"
      using indexOf_append [OF assms(4), of rest] by simp
    have "process_buffer rt mid (s, full) (raw @ [10, 10] @ rest) =
        (case process_line rt mid (s, full) (trim (take (length raw) (raw @ [10, 10] @ rest))) of
           Return s' \<Rightarrow> Return s'
         | Continue sf' \<Rightarrow>
             process_buffer rt mid sf' (drop (length raw + 2) (raw @ [10, 10] @ rest)))"
      by (subst process_buffer.simps) (simp only: idx option.case Let_def)
    then show ?thesis by (simp add: one)
  qed
  have none: "indexOf [10, 10] [] = None" by simp
  have "read_loop rt mid (s, full, []) ((raw @ [10, 10]) # reads) =
      process_buffer rt mid (s, full) (raw @ [10, 10] @ concat reads)"
    using read_loop_concat [OF none, of rt mid s full "(raw @ [10, 10]) # reads"] by simp
  also have "\<dots> = process_buffer rt mid (s, full) (concat reads)" by (rule three)
  also have "\<dots> = read_loop rt mid (s, full, []) reads"
    using read_loop_concat [OF none, of rt mid s full reads] by simp
  finally have four: "read_loop rt mid (s, full, []) ((raw @ [10, 10]) # reads) =
      read_loop rt mid (s, full, []) reads" .
  from one three four show ?thesis by simp
qed

theorem malformed_frame_skipped_witness:
  "prefix (js ''data: '') (trim (js ''data: {oops''))
   \<and> drop 6 (trim (js ''data: {oops'')) \<noteq> js ''[DONE]''
   \<and> JSON_parse example_runtime (drop 6 (trim (js ''data: {oops''))) = None
   \<and> indexOf [10, 10] (js ''data: {oops'' @ [10, 10]) = Some (length (js ''data: {oops''))
   \<and> process_line example_runtime (StreamId 1001) (example_state, js ''Hi'') (trim (js ''data: {oops''))
       = Continue (example_state, js ''Hi'')
   \<and> read_loop example_runtime (StreamId 1001) (example_state, js ''Hi'', [])
         [js ''data: {oops'' @ [10, 10], token_frame @ [10, 10]]
       = read_loop example_runtime (StreamId 1001) (example_state, js ''Hi'', [])
         [token_frame @ [10, 10]]"
proof -
  have a: "prefix (js ''data: '') (trim (js ''data: {oops''))"
    by (simp add: js_def trim_def isWhiteSpace_def)
  have b: "drop 6 (trim (js ''data: {oops'')) \<noteq> js ''[DONE]''"
    by (simp add: js_def trim_def isWhiteSpace_def)
  have c: "JSON_parse example_runtime (drop 6 (trim (js ''data: {oops''))) = None"
    by (simp add: js_def trim_def isWhiteSpace_def example_runtime_def)
  have d: "indexOf [10, 10] (js ''data: {oops'' @ [10, 10]) = Some (length (js ''data: {oops''))"
    by (simp add: js_def)
  note t = malformed_frame_skipped [OF a b c d, of "StreamId 1001" example_state "js ''Hi''"
      "[]" "[]" "[token_frame @ [10, 10]]"]
  from t have e: "process_line example_runtime (StreamId 1001) (example_state, js ''Hi'')
      (trim (js ''data: {oops'')) = Continue (example_state, js ''Hi'')"
    by (rule conjunct1)
  from t have f: "read_loop example_runtime (StreamId 1001) (example_state, js ''Hi'', [])
         [js ''data: {oops'' @ [10, 10], token_frame @ [10, 10]]
       = read_loop example_runtime (StreamId 1001) (example_state, js ''Hi'', [])
         [token_frame @ [10, 10]]"
    by blast
  from a b c d e f show ?thesis by blast
qed

section \<open>The streamed message on display\<close>

lemma ids_update_element:
  "(\<And>e. el_id (f e) = el_id e) \<Longrightarrow> map el_id (update_element i f es) = map el_id es"
  by (induction es) auto

lemma getElementById_ids:
  "map el_id es = map el_id es' \<Longrightarrow>
   (getElementById es i = None) = (getElementById es' i = None)"
proof (induction es arbitrary: es')
  case Nil
  then show ?case by (simp add: getElementById_def)
next
  case (Cons e es)
  then obtain e' es'' where "es' = e' # es''" by (cases es') auto
  with Cons show ?case by (auto simp: getElementById_def)
qed

lemma getElementById_update:
  "(\<And>e. el_id (f e) = el_id e) \<Longrightarrow>
   getElementById (update_element i f es) i = map_option f (getElementById es i)"
  by (induction es) (auto simp: getElementById_def)

lemma ids_updateStreamingMessage:
  "map el_id (messagesContainer (updateStreamingMessage s mid c)) = map el_id (messagesContainer s)"
  by (simp add: updateStreamingMessage_def ids_update_element split: option.splits)

lemma ids_finalizeStreamingMessage:
  "map el_id (messagesContainer (finalizeStreamingMessage rt s mid m)) = map el_id (messagesContainer s)"
  by (simp add: finalizeStreamingMessage_def ids_update_element Let_def
      split: option.splits sum.splits bool.splits)

lemma process_line_token:
  "token_text rt line = Some tok \<Longrightarrow>
   process_line rt mid (s, full) line
     = Continue (updateStreamingMessage s mid (full @ tok), full @ tok)"
  by (auto simp: process_line_def token_text_def Let_def split: option.splits sum.splits if_splits)

lemma process_line_no_token:
  "token_text rt line = None \<Longrightarrow> process_line rt mid (s, full) line = Continue (s', full')
   \<Longrightarrow> full' = full \<and> map el_id (messagesContainer s') = map el_id (messagesContainer s)"
  by (auto simp: process_line_def token_text_def Let_def ids_finalizeStreamingMessage
      split: option.splits sum.splits if_splits)

lemma process_lines_tokens:
  "process_lines rt mid (s, full) ls = Continue (s', full') \<Longrightarrow>
   full' = full @ concat (tokens rt ls)
   \<and> map el_id (messagesContainer s') = map el_id (messagesContainer s)"
proof (induction ls arbitrary: s full)
  case Nil
  then show ?case by (simp add: tokens_def map_filter_simps)
next
  case (Cons line ls)
  from Cons.prems obtain s1 full1 where
    step: "process_line rt mid (s, full) line = Continue (s1, full1)"
    and rest: "process_lines rt mid (s1, full1) ls = Continue (s', full')"
    by (auto split: flow.splits)
  note ih = Cons.IH [OF rest]
  show ?case
  proof (cases "token_text rt line")
    case None
    from process_line_no_token [OF None step] ih None show ?thesis
      by (simp add: tokens_def map_filter_simps)
  next
    case (Some tok)
    from process_line_token [OF Some, of mid s full] step
    have "s1 = updateStreamingMessage s mid (full @ tok)" "full1 = full @ tok" by simp_all
    with ih Some show ?thesis
      by (simp add: tokens_def map_filter_simps ids_updateStreamingMessage)
  qed
qed

lemma find_Some_ex: "(\<exists>y. find P xs = Some y) \<longleftrightarrow> (\<exists>x \<in> set xs. P x)"
  by (induction xs) auto

lemma sendMessage_begin_placeholder:
  "sendMessage_begin clk s0 message chatId = (s1, mid) \<Longrightarrow>
   getElementById (messagesContainer s1) mid \<noteq> None"
  by (auto simp: sendMessage_begin_def addStreamingMessagePlaceholder_def addMessageToUI_def
      getElementById_def Let_def find_Some_ex split: prod.splits)

lemma read_loop_frames:
  "read_loop rt mid (s, full, []) reads =
     (case process_lines rt mid (s, full) (frames_of (concat reads)) of
        Return s' \<Rightarrow> Return s'
      | Continue sf' \<Rightarrow> Continue (fst sf', snd sf', unframed (concat reads)))"
proof -
  have none: "indexOf [10, 10] [] = None" by simp
  show ?thesis
    using read_loop_concat [OF none, of rt mid s full reads] by (simp add: process_buffer_frames)
qed

text \<open>
  C4. During a streamed turn, after each token event the content written to the message of
  the assistant is \<open>formatMessage\<close> of the concatenation, in the order of arrival, of the
  fragments of all token events received so far, followed by the cursor that marks the stream
  as in progress: the presentation is computed anew from the whole of \<open>fullResponse\<close> each
  time. The reads received so far have not brought \<open>[DONE]\<close>; \<open>line\<close> is the next frame, a
  token event.
\<close>

theorem streaming_display:
  assumes "sendMessage_begin clk s0 message chatId = (s1, mid)"
    and "read_loop rt mid (s1, [], []) reads = Continue (s, full, buffer)"
    and "token_text rt line = Some tok"
  shows "full = concat (tokens rt (frames_of (concat reads)))
    \<and> (\<exists>s'. process_line rt mid (s, full) line = Continue (s', full @ tok)
          \<and> map_option el_content (getElementById (messagesContainer s') mid)
              = Some (formatMessage (Some (concat (tokens rt (frames_of (concat reads) @ [line]))))
                      @ cursor))"
proof -
  from assms(2) have run: "process_lines rt mid (s1, []) (frames_of (concat reads)) = Continue (s, full)"
    by (auto simp: read_loop_frames split: flow.splits)
  from process_lines_tokens [OF run]
  have full: "full = concat (tokens rt (frames_of (concat reads)))"
    and ids: "map el_id (messagesContainer s) = map el_id (messagesContainer s1)"
    by simp_all
  from sendMessage_begin_placeholder [OF assms(1)] getElementById_ids [OF ids, of mid]
  obtain e where e: "getElementById (messagesContainer s) mid = Some e" by auto
  let ?s' = "updateStreamingMessage s mid (full @ tok)"
  have step: "process_line rt mid (s, full) line = Continue (?s', full @ tok)"
    by (rule process_line_token [OF assms(3)])
  have "map_option el_content (getElementById (messagesContainer ?s') mid)
      = Some (formatMessage (Some (full @ tok)) @ cursor)"
    using e by (simp add: updateStreamingMessage_def getElementById_update)
  moreover have "tokens rt (frames_of (concat reads) @ [line]) = tokens rt (frames_of (concat reads)) @ [tok]"
    using assms(3) by (simp add: tokens_def map_filter_def)
  ultimately show ?thesis using full step by auto
qed

lemma in_flight_begin:
  "sendMessage_begin example_clock example_state (js ''hello'') (js ''b'')
     = (in_flight_state, StreamId 1001)"
  by (simp add: in_flight_state_def sendMessage_begin_def addStreamingMessagePlaceholder_def
      Let_def example_clock_def split: prod.splits)

lemma token_frame_text: "token_text example_runtime token_frame = Some (js ''Hi'')"
  by (simp add: token_text_def token_frame_def example_runtime_def js_def)

lemma token_frame_line:
  "process_line example_runtime mid (s, full) (trim token_frame)
     = Continue (updateStreamingMessage s mid (full @ js ''Hi''), full @ js ''Hi'')"
proof -
  have "trim token_frame = token_frame"
    by (simp add: trim_def token_frame_def js_def isWhiteSpace_def)
  then show ?thesis using process_line_token [OF token_frame_text] by simp
qed

lemma done_frame_line: "process_line rt mid (s, full) (trim done_frame) = Return s"
  by (simp add: process_line_def trim_def done_frame_def js_def isWhiteSpace_def)

lemma token_chunk:
  "process_buffer example_runtime mid (s, full) (token_frame @ [10, 10])
     = Continue (updateStreamingMessage s mid (full @ js ''Hi''), full @ js ''Hi'', [])"
proof -
  have i: "indexOf [10, 10] (token_frame @ [10, 10]) = Some (length token_frame)"
    by (simp add: token_frame_def js_def)
  have "process_buffer example_runtime mid (s, full) (token_frame @ [10, 10]) =
      (case process_line example_runtime mid (s, full)
              (trim (take (length token_frame) (token_frame @ [10, 10]))) of
         Return s' \<Rightarrow> Return s'
       | Continue sf' \<Rightarrow> process_buffer example_runtime mid sf'
             (drop (length token_frame + 2) (token_frame @ [10, 10])))"
    by (subst process_buffer.simps) (simp only: i option.case Let_def)
  then show ?thesis by (simp add: token_frame_line process_buffer_no_boundary)
qed

lemma done_chunk:
  "process_buffer rt mid (s, full) (done_frame @ [10, 10]) = Return s"
proof -
  have i: "indexOf [10, 10] (done_frame @ [10, 10]) = Some (length done_frame)"
    by (simp add: done_frame_def js_def)
  have "process_buffer rt mid (s, full) (done_frame @ [10, 10]) =
      (case process_line rt mid (s, full)
              (trim (take (length done_frame) (done_frame @ [10, 10]))) of
         Return s' \<Rightarrow> Return s'
       | Continue sf' \<Rightarrow> process_buffer rt mid sf'
             (drop (length done_frame + 2) (done_frame @ [10, 10])))"
    by (subst process_buffer.simps) (simp only: i option.case Let_def)
  then show ?thesis by (simp add: done_frame_line)
qed

theorem streaming_display_witness:
  "sendMessage_begin example_clock example_state (js ''hello'') (js ''b'')
     = (in_flight_state, StreamId 1001)
   \<and> read_loop example_runtime (StreamId 1001) (in_flight_state, [], []) [token_frame @ [10, 10]]
     = Continue (updateStreamingMessage in_flight_state (StreamId 1001) (js ''Hi''), js ''Hi'', [])
   \<and> token_text example_runtime token_frame = Some (js ''Hi'')
   \<and> js ''Hi'' = concat (tokens example_runtime (frames_of (concat [token_frame @ [10, 10]])))
   \<and> (\<exists>s'. process_line example_runtime (StreamId 1001)
              (updateStreamingMessage in_flight_state (StreamId 1001) (js ''Hi''), js ''Hi'')
              token_frame
            = Continue (s', js ''Hi'' @ js ''Hi'')
          \<and> map_option el_content (getElementById (messagesContainer s') (StreamId 1001))
              = Some (formatMessage
                        (Some (concat (tokens example_runtime
                           (frames_of (concat [token_frame @ [10, 10]]) @ [token_frame]))))
                      @ cursor))"
proof -
  have r: "read_loop example_runtime (StreamId 1001) (in_flight_state, [], []) [token_frame @ [10, 10]]
     = Continue (updateStreamingMessage in_flight_state (StreamId 1001) (js ''Hi''), js ''Hi'', [])"
    by (simp add: token_chunk)
  from streaming_display [OF in_flight_begin r token_frame_text]
  show ?thesis using in_flight_begin r token_frame_text by blast
qed

section \<open>The flag that a generation is in progress\<close>

lemma sendMessage_busy: "isGenerating s \<Longrightarrow> sendMessage rt clk new_chat stream s = s"
  by (simp add: sendMessage_def)

lemma sendMessage_accepted:
  assumes "trim (messageInput_value s) \<noteq> []" and "\<not> isGenerating s"
    and "currentChatId s = Some chatId" and "chatId \<noteq> []"
    and "sendMessage_begin clk s (trim (messageInput_value s)) chatId = (s1, mid)"
  shows "sendMessage rt clk new_chat stream s =
     finally_ready (sendMessage_catch mid (sendMessage_try rt clk stream mid s1))"
  using assms by (simp add: sendMessage_def Let_def)

lemma finally_ready_flag:
  "isGenerating (finally_ready s) = False \<and> sendButton_disabled (finally_ready s) = False"
  by (simp add: finally_ready_def)

text \<open>
  C8. \<open>createNewChatWithMessage\<close> always ends with \<open>isGenerating\<close> false and the send button
  enabled: when the server answers with a chat, when it answers with an error, and when the
  request throws. So does every \<open>sendMessage\<close> that passes its guard (a message is typed and
  no generation is in progress), whatever the answer: a stream that ends in any way, an HTTP
  error, a \<open>fetch\<close> or a \<open>read\<close> that throws.
\<close>

theorem generation_flag_released:
  "isGenerating (createNewChatWithMessage clk new_chat s message) = False
   \<and> sendButton_disabled (createNewChatWithMessage clk new_chat s message) = False
   \<and> (trim (messageInput_value s) \<noteq> [] \<and> \<not> isGenerating s \<longrightarrow>
        isGenerating (sendMessage rt clk new_chat stream s) = False
        \<and> sendButton_disabled (sendMessage rt clk new_chat stream s) = False)"
proof -
  have c: "createNewChatWithMessage clk new_chat s message =
      finally_ready (createNewChatWithMessage clk new_chat s message)" for s message
    by (simp add: createNewChatWithMessage_def Let_def finally_ready_def)
  have one: "isGenerating (createNewChatWithMessage clk new_chat s message) = False
     \<and> sendButton_disabled (createNewChatWithMessage clk new_chat s message) = False"
    for s message
    by (subst c, subst (2) c) (rule finally_ready_flag)
  have two: "isGenerating (sendMessage rt clk new_chat stream s) = False
        \<and> sendButton_disabled (sendMessage rt clk new_chat stream s) = False"
    if a: "trim (messageInput_value s) \<noteq> []" "\<not> isGenerating s"
  proof (cases "if currentChatId s = Some [] then None else currentChatId s")
    case None
    with a have "sendMessage rt clk new_chat stream s =
        createNewChatWithMessage clk new_chat s (trim (messageInput_value s))"
      by (simp add: sendMessage_def Let_def)
    with one show ?thesis by simp
  next
    case (Some chatId)
    then have cid: "currentChatId s = Some chatId" "chatId \<noteq> []" by (auto split: if_splits)
    obtain s1 mid where b: "sendMessage_begin clk s (trim (messageInput_value s)) chatId = (s1, mid)"
      by (cases "sendMessage_begin clk s (trim (messageInput_value s)) chatId")
    show ?thesis
      by (simp only: sendMessage_accepted [OF a cid b] finally_ready_flag)
  qed
  from one two show ?thesis by blast
qed

theorem generation_flag_released_witness:
  "trim (messageInput_value example_state) \<noteq> [] \<and> \<not> isGenerating example_state
   \<and> isGenerating (sendMessage example_runtime example_clock no_new_chat
        (Response False 500 [] Closed) example_state) = False
   \<and> sendButton_disabled (sendMessage example_runtime example_clock no_new_chat
        (Response False 500 [] Closed) example_state) = False
   \<and> isGenerating (sendMessage example_runtime example_clock no_new_chat
        (FetchThrows (js ''Failed to fetch'')) example_state) = False
   \<and> isGenerating (sendMessage example_runtime example_clock no_new_chat
        (Response True 200 [token_frame @ [10, 10], done_frame @ [10, 10]] Closed)
        example_state) = False"
proof -
  have a: "trim (messageInput_value example_state) \<noteq> []"
    by (simp add: example_state_def trim_def js_def isWhiteSpace_def)
  have b: "\<not> isGenerating example_state" by (simp add: example_state_def)
  note t1 = generation_flag_released [of example_clock no_new_chat example_state
      "[]" example_runtime "Response False 500 [] Closed"]
  note t2 = generation_flag_released [of example_clock no_new_chat example_state
      "[]" example_runtime "FetchThrows (js ''Failed to fetch'')"]
  note t3 = generation_flag_released [of example_clock no_new_chat example_state
      "[]" example_runtime
      "Response True 200 [token_frame @ [10, 10], done_frame @ [10, 10]] Closed"]
  from t1 t2 t3 a b show ?thesis by blast
qed

lemma sendMessage_begin_generating:
  "isGenerating (fst (sendMessage_begin clk s message chatId))"
  by (simp add: sendMessage_begin_def addStreamingMessagePlaceholder_def Let_def split: prod.splits)

lemma selectChat_begin_generating:
  "isGenerating (selectChat_begin s chatId title) = isGenerating s"
  by (simp add: selectChat_begin_def)

lemma error_count_begin:
  "sendMessage_begin clk s0 message chatId = (s1, mid) \<Longrightarrow>
   error_count s1 = error_count s0 \<and> chats s1 = chats s0 \<and> currentChatId s1 = currentChatId s0"
  by (auto simp: sendMessage_begin_def addStreamingMessagePlaceholder_def addMessageToUI_def
      error_count_def Let_def split: prod.splits)

lemma in_flight_fields:
  "chats in_flight_state = [chat_a, chat_b] \<and> currentChatId in_flight_state = Some (js ''b'')
   \<and> isGenerating in_flight_state \<and> error_count in_flight_state = 0
   \<and> requests in_flight_state = [PostChatStream (js ''hello'') (js ''b'')]
   \<and> alerts in_flight_state = []"
  by (simp add: in_flight_state_def sendMessage_begin_def addStreamingMessagePlaceholder_def
      addMessageToUI_def example_state_def error_count_def Let_def)

lemma busy_fields:
  "isGenerating busy_state \<and> currentChatId busy_state = Some (js ''b'')
   \<and> error_count busy_state = 0 \<and> alerts busy_state = []
   \<and> requests busy_state = [PostChatStream (js ''hello'') (js ''b'')]"
  using in_flight_fields by (simp add: busy_state_def error_count_def)

lemma other_chat_fields:
  "isGenerating other_chat_state \<and> currentChatId other_chat_state = Some (js ''a'')
   \<and> requests other_chat_state = [PostChatStream (js ''hello'') (js ''b''), GetChat (js ''a'')]"
  using in_flight_fields by (simp add: other_chat_state_def selectChat_begin_def js_def)

text \<open>
  C2, as the code has it. While a generation is in progress a further \<open>sendMessage\<close> returns
  at once and changes nothing: no request is issued, no message and no error is shown, no
  alert is raised, nothing is queued, and the typed text stays in the input.
\<close>

theorem send_while_generating_ignored:
  assumes "isGenerating s"
  shows "sendMessage rt clk new_chat stream s = s
    \<and> requests (sendMessage rt clk new_chat stream s) = requests s
    \<and> messagesContainer (sendMessage rt clk new_chat stream s) = messagesContainer s
    \<and> alerts (sendMessage rt clk new_chat stream s) = alerts s
    \<and> messageInput_value (sendMessage rt clk new_chat stream s) = messageInput_value s"
  by (simp add: sendMessage_busy [OF assms])

theorem send_while_generating_ignored_witness:
  "isGenerating busy_state
   \<and> sendMessage example_runtime later_clock no_new_chat
        (Response True 200 [done_frame @ [10, 10]] Closed) busy_state = busy_state"
proof -
  have a: "isGenerating busy_state" using busy_fields by simp
  from send_while_generating_ignored [OF a] a show ?thesis by blast
qed

text \<open>
  The second send is not answered with a busy error. A turn for chat \<open>b\<close> is in flight; a
  second message is sent to \<open>b\<close>: no error message is on display, no alert has been raised,
  and the one request is that of the first send.
\<close>

theorem busy_send_counterexample:
  "isGenerating busy_state \<and> currentChatId busy_state = Some (js ''b'')
   \<and> error_count (sendMessage example_runtime later_clock no_new_chat
         (Response True 200 [done_frame @ [10, 10]] Closed) busy_state) = 0
   \<and> alerts (sendMessage example_runtime later_clock no_new_chat
         (Response True 200 [done_frame @ [10, 10]] Closed) busy_state) = []
   \<and> requests (sendMessage example_runtime later_clock no_new_chat
         (Response True 200 [done_frame @ [10, 10]] Closed) busy_state)
       = [PostChatStream (js ''hello'') (js ''b'')]"
  using busy_fields by (simp add: sendMessage_busy)

text \<open>
  C1, as the code has it. The guard is the one flag \<open>isGenerating\<close> of the page, not a lock for
  each session. Once a turn has been started for a chat A, and whichever chat B is selected
  then, the same or another, \<open>sendMessage\<close> returns at once and leaves the page as it is: no
  turn for B starts while the turn for A is in flight.
\<close>

theorem one_flag_for_all_sessions:
  "sendMessage rt clk' new_chat stream
     ((selectChat_begin (fst (sendMessage_begin clk s message chatA)) chatB title)
        \<lparr>messageInput_value := message'\<rparr>)
   = (selectChat_begin (fst (sendMessage_begin clk s message chatA)) chatB title)
        \<lparr>messageInput_value := message'\<rparr>"
  by (rule sendMessage_busy) (simp add: selectChat_begin_generating sendMessage_begin_generating)

text \<open>
  A turn for another session does not proceed. A turn for chat \<open>b\<close> is in flight; the user
  selects chat \<open>a\<close> and sends a message: the page stays as it is, and no request to stream
  an answer for \<open>a\<close> is issued.
\<close>

theorem other_session_blocked_counterexample:
  "js ''a'' \<noteq> js ''b''
   \<and> requests in_flight_state = [PostChatStream (js ''hello'') (js ''b'')]
   \<and> currentChatId other_chat_state = Some (js ''a'')
   \<and> sendMessage example_runtime later_clock no_new_chat
        (Response True 200 [done_frame @ [10, 10]] Closed) other_chat_state = other_chat_state
   \<and> requests (sendMessage example_runtime later_clock no_new_chat
        (Response True 200 [done_frame @ [10, 10]] Closed) other_chat_state)
       = [PostChatStream (js ''hello'') (js ''b''), GetChat (js ''a'')]"
  using other_chat_fields in_flight_fields by (simp add: sendMessage_busy) (simp add: js_def)

section \<open>The list of chats\<close>

text \<open>
  C7. When the server has created the chat, \<open>createNewChatWithMessage\<close> puts the new chat at
  the front of \<open>chats\<close>. When the user has confirmed and the server has deleted the chat,
  \<open>deleteChat\<close> removes from \<open>chats\<close> the entries with that id and keeps the others, each as
  it was and in the same order; it resets the active view (no open chat, the default title,
  no messages, the empty state shown) when the deleted chat was the open one, and leaves the
  active view as it is when it was not.
\<close>

theorem registry_insert_delete:
  "(nc_error d \<in> {None, Some []} \<longrightarrow>
      chats (createNewChatWithMessage clk (NewChatData d) s message) =
        \<lparr>chat_id = nc_chat_id d, chat_title = nc_title d,
         created_at = iso_string (clk 1), updated_at = iso_string (clk 2)\<rparr> # chats s)
   \<and> chats (deleteChat True (DeleteResponse True) s chatId) =
        filter (\<lambda>c. chat_id c \<noteq> chatId) (chats s)
   \<and> (currentChatId s = Some chatId \<longrightarrow>
        active_view (deleteChat True (DeleteResponse True) s chatId) =
          (None, js ''Llama 3 8B Multi-Chat'', [], js ''flex''))
   \<and> (currentChatId s \<noteq> Some chatId \<longrightarrow>
        active_view (deleteChat True (DeleteResponse True) s chatId) = active_view s)"
proof -
  have one: "chats (createNewChatWithMessage clk (NewChatData d) s message) =
        \<lparr>chat_id = nc_chat_id d, chat_title = nc_title d,
         created_at = iso_string (clk 1), updated_at = iso_string (clk 2)\<rparr> # chats s"
    if "nc_error d \<in> {None, Some []}"
    using that
    by (auto simp: createNewChatWithMessage_def Let_def finally_ready_def addMessageToUI_def
        addErrorMessage_def selectChat_begin_def split: option.splits)
  have two: "chats (deleteChat True (DeleteResponse True) s chatId) =
        filter (\<lambda>c. chat_id c \<noteq> chatId) (chats s)"
    by (simp add: deleteChat_def Let_def)
  have three: "active_view (deleteChat True (DeleteResponse True) s chatId) =
          (None, js ''Llama 3 8B Multi-Chat'', [], js ''flex'')"
    if "currentChatId s = Some chatId"
    using that by (simp add: deleteChat_def Let_def active_view_def)
  have four: "active_view (deleteChat True (DeleteResponse True) s chatId) = active_view s"
    if "currentChatId s \<noteq> Some chatId"
    using that by (auto simp: deleteChat_def Let_def active_view_def)
  from one two three four show ?thesis by blast
qed

theorem registry_insert_delete_witness:
  "nc_error example_new_chat \<in> {None, Some []}
   \<and> chats (createNewChatWithMessage example_clock (NewChatData example_new_chat)
        (example_state\<lparr>currentChatId := None\<rparr>) (js ''hello''))
      = \<lparr>chat_id = js ''c'', chat_title = js ''C'', created_at = js ''later'',
         updated_at = js ''later''\<rparr> # [chat_a, chat_b]
   \<and> chats (deleteChat True (DeleteResponse True) example_state (js ''b'')) = [chat_a]
   \<and> currentChatId example_state = Some (js ''b'')
   \<and> active_view (deleteChat True (DeleteResponse True) example_state (js ''b''))
      = (None, js ''Llama 3 8B Multi-Chat'', [], js ''flex'')
   \<and> currentChatId example_state \<noteq> Some (js ''a'')
   \<and> chats (deleteChat True (DeleteResponse True) example_state (js ''a'')) = [chat_b]
   \<and> active_view (deleteChat True (DeleteResponse True) example_state (js ''a''))
      = active_view example_state"
proof -
  have a: "nc_error example_new_chat \<in> {None, Some []}" by (simp add: example_new_chat_def)
  have b: "currentChatId example_state = Some (js ''b'')" by (simp add: example_state_def)
  have c: "currentChatId example_state \<noteq> Some (js ''a'')" by (simp add: example_state_def js_def)
  note t1 = registry_insert_delete [of example_new_chat example_clock
      "example_state\<lparr>currentChatId := None\<rparr>" "js ''hello''" "js ''b''"]
  note t2 = registry_insert_delete [of example_new_chat example_clock
      example_state "js ''hello''" "js ''b''"]
  note t3 = registry_insert_delete [of example_new_chat example_clock
      example_state "js ''hello''" "js ''a''"]
  from t1 a have one: "chats (createNewChatWithMessage example_clock
        (NewChatData example_new_chat) (example_state\<lparr>currentChatId := None\<rparr>) (js ''hello''))
      = \<lparr>chat_id = js ''c'', chat_title = js ''C'', created_at = js ''later'',
         updated_at = js ''later''\<rparr> # [chat_a, chat_b]"
    by (simp add: example_new_chat_def example_clock_def example_state_def)
  from t2 b have two: "chats (deleteChat True (DeleteResponse True) example_state (js ''b''))
      = [chat_a]"
    and three: "active_view (deleteChat True (DeleteResponse True) example_state (js ''b''))
      = (None, js ''Llama 3 8B Multi-Chat'', [], js ''flex'')"
    by (simp_all add: example_state_def chat_a_def chat_b_def js_def)
  from t3 c have four: "chats (deleteChat True (DeleteResponse True) example_state (js ''a''))
      = [chat_b]"
    and five: "active_view (deleteChat True (DeleteResponse True) example_state (js ''a''))
      = active_view example_state"
    by (simp_all add: example_state_def chat_a_def chat_b_def js_def)
  from a b c one two three four five show ?thesis by blast
qed

section \<open>How a stream ends\<close>

lemma same_page_refl: "same_page s s"
  by (simp add: same_page_def)

lemma same_page_trans: "same_page s s' \<Longrightarrow> same_page s' s'' \<Longrightarrow> same_page s s''"
  by (cases s, cases s', cases s'') (simp add: same_page_def)

lemma errors_update_element:
  "(\<And>e. el_error (f e) = el_error e) \<Longrightarrow> map el_error (update_element i f es) = map el_error es"
  by (induction es) auto

lemma same_page_updateStreamingMessage: "same_page s (updateStreamingMessage s mid c)"
  by (simp add: same_page_def updateStreamingMessage_def ids_update_element errors_update_element
      split: option.splits)

lemma same_page_finalizeStreamingMessage: "same_page s (finalizeStreamingMessage rt s mid m)"
  by (simp add: same_page_def finalizeStreamingMessage_def ids_update_element
      errors_update_element Let_def split: option.splits sum.splits bool.splits)

lemma process_line_same_page:
  "process_line rt mid (s, full) line = Continue (s', full') \<or>
   process_line rt mid (s, full) line = Return s' \<Longrightarrow> same_page s s'"
  by (auto simp: process_line_def Let_def same_page_refl same_page_updateStreamingMessage
      same_page_finalizeStreamingMessage split: option.splits sum.splits if_splits)

lemma process_lines_same_page:
  "process_lines rt mid (s, full) ls = Continue (s', full') \<or>
   process_lines rt mid (s, full) ls = Return s' \<Longrightarrow> same_page s s'"
proof (induction ls arbitrary: s full)
  case Nil
  then show ?case by (auto simp: same_page_refl)
next
  case (Cons line ls)
  show ?case
  proof (cases "process_line rt mid (s, full) line")
    case (Return r)
    with Cons.prems have "s' = r" by auto
    with Return process_line_same_page [of rt mid s full line] show ?thesis by blast
  next
    case (Continue sf)
    obtain s1 full1 where sf: "sf = (s1, full1)" by (cases sf)
    from Continue sf process_line_same_page [of rt mid s full line s1 full1]
    have a: "same_page s s1" by simp
    from Cons.prems Continue sf
    have "process_lines rt mid (s1, full1) ls = Continue (s', full') \<or>
          process_lines rt mid (s1, full1) ls = Return s'" by simp
    from Cons.IH [OF this] a show ?thesis by (blast intro: same_page_trans)
  qed
qed

lemma read_loop_same_page:
  "read_loop rt mid (s, full, []) reads = Continue (s', full', buffer) \<or>
   read_loop rt mid (s, full, []) reads = Return s' \<Longrightarrow> same_page s s'"
proof -
  assume a: "read_loop rt mid (s, full, []) reads = Continue (s', full', buffer) \<or>
   read_loop rt mid (s, full, []) reads = Return s'"
  then have "process_lines rt mid (s, full) (frames_of (concat reads)) = Continue (s', full') \<or>
      process_lines rt mid (s, full) (frames_of (concat reads)) = Return s'"
    by (auto simp: read_loop_frames split: flow.splits)
  then show ?thesis by (rule process_lines_same_page)
qed

lemma same_page_fields:
  "same_page s s' \<Longrightarrow> chats s' = chats s \<and> currentChatId s' = currentChatId s
     \<and> requests s' = requests s \<and> alerts s' = alerts s
     \<and> error_count s' = error_count s"
proof -
  assume a: "same_page s s'"
  then have e: "s' = s\<lparr>messagesContainer := messagesContainer s'\<rparr>"
    and m: "map el_error (messagesContainer s') = map el_error (messagesContainer s)"
    by (simp_all add: same_page_def)
  have "length (filter el_error xs) = length (filter el_error ys)"
    if "map el_error xs = map el_error ys" for xs ys :: "element list"
    using that
  proof (induction xs arbitrary: ys)
    case Nil
    then show ?case by simp
  next
    case (Cons x xs)
    then obtain y ys' where "ys = y # ys'" by (cases ys) auto
    with Cons show ?case by auto
  qed
  from this [OF m] have c: "error_count s' = error_count s" by (simp add: error_count_def)
  have "chats s' = chats s \<and> currentChatId s' = currentChatId s
     \<and> requests s' = requests s \<and> alerts s' = alerts s"
    by (subst e, subst (2) e, subst (3) e, subst (4) e) simp
  with c show ?thesis by simp
qed

lemma move_to_top_messages: "messagesContainer (move_to_top (clk 2) s) = messagesContainer s"
  by (simp add: move_to_top_def split: option.splits list.splits)

lemma example_accepted:
  "sendMessage rt example_clock new_chat stream example_state =
     finally_ready (sendMessage_catch (StreamId 1001)
       (sendMessage_try rt example_clock stream (StreamId 1001) in_flight_state))"
proof -
  have m: "trim (messageInput_value example_state) = js ''hello''"
    by (simp add: example_state_def trim_def js_def isWhiteSpace_def)
  have a: "trim (messageInput_value example_state) \<noteq> []" by (simp add: m js_def)
  have b: "\<not> isGenerating example_state" by (simp add: example_state_def)
  have c: "currentChatId example_state = Some (js ''b'')" by (simp add: example_state_def)
  have d: "js ''b'' \<noteq> []" by (simp add: js_def)
  have e: "sendMessage_begin example_clock example_state (trim (messageInput_value example_state))
      (js ''b'') = (in_flight_state, StreamId 1001)"
    by (simp only: m in_flight_begin)
  show ?thesis by (rule sendMessage_accepted [OF a b c d e])
qed

lemma token_then_closed:
  "read_loop example_runtime mid (s, [], []) [token_frame @ [10, 10]]
     = Continue (updateStreamingMessage s mid (js ''Hi''), js ''Hi'', [])"
  by (simp add: token_chunk)

lemma token_then_done:
  "read_loop example_runtime mid (s, [], []) [token_frame @ [10, 10], done_frame @ [10, 10]]
     = Return (updateStreamingMessage s mid (js ''Hi''))"
  by (simp add: token_chunk done_chunk)

lemma streamed_fields:
  "chats (updateStreamingMessage in_flight_state mid c) = [chat_a, chat_b]
   \<and> currentChatId (updateStreamingMessage in_flight_state mid c) = Some (js ''b'')
   \<and> error_count (updateStreamingMessage in_flight_state mid c) = 0"
  using same_page_fields [OF same_page_updateStreamingMessage, of in_flight_state mid c]
    in_flight_fields by simp

lemma format_Hi: "formatMessage (Some (js ''Hi'')) = js ''Hi''"
  by (simp add: js_def formatMessage_def markdown_def escapeHtml_def codeBlocks.simps
      linePrefix.simps fence_def match_li_def isLineTerminator_def)

lemma in_flight_placeholder:
  "map_option el_id (getElementById (messagesContainer in_flight_state) (StreamId 1001))
     = Some (StreamId 1001)"
  by (simp add: in_flight_state_def sendMessage_begin_def addStreamingMessagePlaceholder_def
      addMessageToUI_def example_state_def example_clock_def getElementById_def Let_def)

lemma done_return_keeps_chats:
  assumes "trim (messageInput_value s0) \<noteq> []" and "\<not> isGenerating s0"
    and "currentChatId s0 = Some chatId" and "chatId \<noteq> []"
    and "sendMessage_begin clk s0 (trim (messageInput_value s0)) chatId = (s1, mid)"
    and "read_loop rt mid (s1, [], []) reads = Return s'"
  shows "chats (sendMessage rt clk new_chat (Response True status reads fin) s0) = chats s0"
proof -
  have "sendMessage rt clk new_chat (Response True status reads fin) s0 = finally_ready s'"
    by (simp add: sendMessage_accepted [OF assms(1-5)] sendMessage_try_def sendMessage_catch_def
        assms(6))
  moreover from read_loop_same_page [of rt mid s1 "[]" reads s'] assms(6)
  have "same_page s1 s'" by simp
  from same_page_fields [OF this] error_count_begin [OF assms(5)]
  have "chats s' = chats s0" by simp
  ultimately show ?thesis by (simp add: finally_ready_def)
qed

text \<open>
  C5. A stream that ends with \<open>[DONE]\<close> leaves \<open>chats\<close> in the order it had: the \<open>return\<close> of
  the \<open>[DONE]\<close> frame skips the statements after the loop, which move the chat to the top.
  The same stream without the marker, closed by the server, does move the chat to the front
  and stamps its \<open>updated_at\<close>.
\<close>

theorem done_marker_skips_move_to_top:
  "chats (sendMessage example_runtime example_clock no_new_chat
            (Response True 200 [token_frame @ [10, 10], done_frame @ [10, 10]] Closed)
            example_state)
     = [chat_a, chat_b]
   \<and> chats (sendMessage example_runtime example_clock no_new_chat
            (Response True 200 [token_frame @ [10, 10]] Closed) example_state)
     = [chat_b\<lparr>updated_at := js ''later''\<rparr>, chat_a]"
proof -
  have "chats (sendMessage example_runtime example_clock no_new_chat
            (Response True 200 [token_frame @ [10, 10], done_frame @ [10, 10]] Closed)
            example_state) = [chat_a, chat_b]"
    by (simp add: example_accepted sendMessage_try_def sendMessage_catch_def token_chunk done_chunk
        finally_ready_def streamed_fields)
  moreover have "chats (sendMessage example_runtime example_clock no_new_chat
            (Response True 200 [token_frame @ [10, 10]] Closed) example_state)
     = [chat_b\<lparr>updated_at := js ''later''\<rparr>, chat_a]"
    by (simp add: example_accepted sendMessage_try_def sendMessage_catch_def token_chunk
        finally_ready_def move_to_top_def streamed_fields)
      (simp add: chat_a_def chat_b_def js_def example_clock_def)
  ultimately show ?thesis by simp
qed

text \<open>
  C6, as the code has it. Take a \<open>sendMessage\<close> that passes its guard and a response that is
  \<open>ok\<close>. If the reads bring a \<open>[DONE]\<close> frame the handler returns there and shows no error.
  If they do not, the end of the stream decides. A \<open>read\<close> that throws makes a failed turn:
  the placeholder is removed and a connection error is shown. A stream that the server closes
  does not: no error is shown, and the statements after the loop run as for a completed turn.
\<close>

theorem stream_end_handling:
  assumes "trim (messageInput_value s0) \<noteq> []" and "\<not> isGenerating s0"
    and "currentChatId s0 = Some chatId" and "chatId \<noteq> []"
    and "sendMessage_begin clk s0 (trim (messageInput_value s0)) chatId = (s1, mid)"
  shows "(read_loop rt mid (s1, [], []) reads = Return s' \<longrightarrow>
            sendMessage rt clk new_chat (Response True status reads fin) s0 = finally_ready s'
            \<and> error_count (sendMessage rt clk new_chat (Response True status reads fin) s0)
                = error_count s0)
    \<and> (read_loop rt mid (s1, [], []) reads = Continue (s', full, buffer) \<longrightarrow>
            sendMessage rt clk new_chat (Response True status reads Closed) s0
              = finally_ready (move_to_top (clk 2) s')
            \<and> error_count (sendMessage rt clk new_chat (Response True status reads Closed) s0)
                = error_count s0
            \<and> sendMessage rt clk new_chat (Response True status reads (ReadThrows msg)) s0
              = finally_ready
                  (addErrorMessage (removeMessage s' mid) (js ''Connection error: '' @ msg))
            \<and> error_count (sendMessage rt clk new_chat
                              (Response True status reads (ReadThrows msg)) s0)
                = Suc (error_count (removeMessage s' mid)))"
proof -
  note acc = sendMessage_accepted [OF assms, of rt new_chat]
  have fr: "error_count (finally_ready s) = error_count s" for s
    by (simp add: finally_ready_def error_count_def)
  have one: "sendMessage rt clk new_chat (Response True status reads fin) s0 = finally_ready s'
      \<and> error_count (sendMessage rt clk new_chat (Response True status reads fin) s0)
          = error_count s0"
    if r: "read_loop rt mid (s1, [], []) reads = Return s'"
  proof -
    have e: "sendMessage rt clk new_chat (Response True status reads fin) s0 = finally_ready s'"
      by (simp add: acc sendMessage_try_def sendMessage_catch_def r)
    from read_loop_same_page [of rt mid s1 "[]" reads s'] r have "same_page s1 s'" by simp
    from same_page_fields [OF this] error_count_begin [OF assms(5)]
    have "error_count s' = error_count s0" by simp
    with e show ?thesis by (simp add: fr)
  qed
  have two: "sendMessage rt clk new_chat (Response True status reads Closed) s0
              = finally_ready (move_to_top (clk 2) s')
            \<and> error_count (sendMessage rt clk new_chat (Response True status reads Closed) s0)
                = error_count s0
            \<and> sendMessage rt clk new_chat (Response True status reads (ReadThrows msg)) s0
              = finally_ready
                  (addErrorMessage (removeMessage s' mid) (js ''Connection error: '' @ msg))
            \<and> error_count (sendMessage rt clk new_chat
                              (Response True status reads (ReadThrows msg)) s0)
                = Suc (error_count (removeMessage s' mid))"
    if r: "read_loop rt mid (s1, [], []) reads = Continue (s', full, buffer)"
  proof -
    have e: "sendMessage rt clk new_chat (Response True status reads Closed) s0
              = finally_ready (move_to_top (clk 2) s')"
      by (simp add: acc sendMessage_try_def sendMessage_catch_def r)
    have t: "sendMessage rt clk new_chat (Response True status reads (ReadThrows msg)) s0
              = finally_ready
                  (addErrorMessage (removeMessage s' mid) (js ''Connection error: '' @ msg))"
      by (simp add: acc sendMessage_try_def sendMessage_catch_def r)
    from read_loop_same_page [of rt mid s1 "[]" reads s' full buffer] r
    have "same_page s1 s'" by simp
    from same_page_fields [OF this] error_count_begin [OF assms(5)]
    have "error_count s' = error_count s0" by simp
    then have c: "error_count (finally_ready (move_to_top (clk 2) s')) = error_count s0"
      by (simp add: fr) (simp add: error_count_def move_to_top_messages)
    have "error_count (addErrorMessage s e) = Suc (error_count s)" for s e
      by (simp add: addErrorMessage_def error_count_def Let_def)
    then have d: "error_count (finally_ready
                  (addErrorMessage (removeMessage s' mid) (js ''Connection error: '' @ msg)))
                = Suc (error_count (removeMessage s' mid))"
      by (simp add: fr)
    from e t c d show ?thesis by simp
  qed
  from one two show ?thesis by blast
qed

theorem stream_end_handling_witness:
  "trim (messageInput_value example_state) \<noteq> [] \<and> \<not> isGenerating example_state
   \<and> currentChatId example_state = Some (js ''b'') \<and> js ''b'' \<noteq> []
   \<and> sendMessage_begin example_clock example_state (trim (messageInput_value example_state))
        (js ''b'') = (in_flight_state, StreamId 1001)
   \<and> read_loop example_runtime (StreamId 1001) (in_flight_state, [], [])
        [token_frame @ [10, 10], done_frame @ [10, 10]]
      = Return (updateStreamingMessage in_flight_state (StreamId 1001) (js ''Hi''))
   \<and> sendMessage example_runtime example_clock no_new_chat
        (Response True 200 [token_frame @ [10, 10], done_frame @ [10, 10]] Closed) example_state
      = finally_ready (updateStreamingMessage in_flight_state (StreamId 1001) (js ''Hi''))
   \<and> read_loop example_runtime (StreamId 1001) (in_flight_state, [], []) [token_frame @ [10, 10]]
      = Continue (updateStreamingMessage in_flight_state (StreamId 1001) (js ''Hi''), js ''Hi'', [])
   \<and> sendMessage example_runtime example_clock no_new_chat
        (Response True 200 [token_frame @ [10, 10]] (ReadThrows (js ''network error'')))
        example_state
      = finally_ready
          (addErrorMessage
             (removeMessage (updateStreamingMessage in_flight_state (StreamId 1001) (js ''Hi''))
                (StreamId 1001))
             (js ''Connection error: '' @ js ''network error''))"
proof -
  have m: "trim (messageInput_value example_state) = js ''hello''"
    by (simp add: example_state_def trim_def js_def isWhiteSpace_def)
  have a: "trim (messageInput_value example_state) \<noteq> []" by (simp add: m js_def)
  have b: "\<not> isGenerating example_state" by (simp add: example_state_def)
  have c: "currentChatId example_state = Some (js ''b'')" by (simp add: example_state_def)
  have d: "js ''b'' \<noteq> []" by (simp add: js_def)
  have e: "sendMessage_begin example_clock example_state (trim (messageInput_value example_state))
      (js ''b'') = (in_flight_state, StreamId 1001)"
    by (simp only: m in_flight_begin)
  note t1 = stream_end_handling [OF a b c d e, of example_runtime
      "[token_frame @ [10, 10], done_frame @ [10, 10]]"
      "updateStreamingMessage in_flight_state (StreamId 1001) (js ''Hi'')"
      no_new_chat 200 Closed]
  note t2 = stream_end_handling [OF a b c d e, of example_runtime
      "[token_frame @ [10, 10]]"
      "updateStreamingMessage in_flight_state (StreamId 1001) (js ''Hi'')"
      no_new_chat 200 Closed "js ''Hi''" "[]" "js ''network error''"]
  from t1 t2 a b c d e token_then_done [of "StreamId 1001" in_flight_state]
    token_then_closed [of "StreamId 1001" in_flight_state]
  show ?thesis by blast
qed

text \<open>
  A stream closed without the marker is not handled as a failed turn. The server sends one
  token and closes the stream: no error message is on display, the chat has been moved to
  the top, and the message still shows the token and the cursor.
\<close>

theorem closed_without_marker_counterexample:
  "error_count (sendMessage example_runtime example_clock no_new_chat
       (Response True 200 [token_frame @ [10, 10]] Closed) example_state) = 0
   \<and> map chat_id (chats (sendMessage example_runtime example_clock no_new_chat
       (Response True 200 [token_frame @ [10, 10]] Closed) example_state)) = [js ''b'', js ''a'']
   \<and> map_option el_content (getElementById (messagesContainer
         (sendMessage example_runtime example_clock no_new_chat
            (Response True 200 [token_frame @ [10, 10]] Closed) example_state)) (StreamId 1001))
       = Some (js ''Hi'' @ cursor)"
proof -
  let ?s = "updateStreamingMessage in_flight_state (StreamId 1001) (js ''Hi'')"
  have r: "sendMessage example_runtime example_clock no_new_chat
       (Response True 200 [token_frame @ [10, 10]] Closed) example_state
     = finally_ready (move_to_top (example_clock 2) ?s)"
    by (simp add: example_accepted sendMessage_try_def sendMessage_catch_def token_chunk)
  have a: "error_count (finally_ready (move_to_top (example_clock 2) ?s)) = 0"
    using streamed_fields [of "StreamId 1001" "js ''Hi''"]
    by (simp add: error_count_def finally_ready_def move_to_top_messages)
  have b: "map chat_id (chats (finally_ready (move_to_top (example_clock 2) ?s))) = [js ''b'', js ''a'']"
    using streamed_fields [of "StreamId 1001" "js ''Hi''"]
    by (simp add: finally_ready_def move_to_top_def)
      (simp add: chat_a_def chat_b_def js_def)
  from in_flight_placeholder obtain e where
    e: "getElementById (messagesContainer in_flight_state) (StreamId 1001) = Some e" by auto
  have c: "map_option el_content (getElementById (messagesContainer
         (finally_ready (move_to_top (example_clock 2) ?s))) (StreamId 1001)) = Some (js ''Hi'' @ cursor)"
    by (simp add: finally_ready_def move_to_top_messages updateStreamingMessage_def e
        getElementById_update format_Hi)
  show ?thesis unfolding r using a b c by blast
qed

section \<open>Escaping comes first in formatMessage\<close>

lemma replaceAll_append:
  "replaceAll c rep (xs @ ys) = replaceAll c rep xs @ replaceAll c rep ys"
  by (induction xs) auto

lemma escapeHtml_Cons: "escapeHtml (c # cs) = html_entity c @ escapeHtml cs"
  by (simp add: escapeHtml_def html_entity_def replaceAll_append js_def)

lemma escapeHtml_entities: "escapeHtml input = concat (map html_entity input)"
proof (induction input)
  case Nil
  then show ?case by (simp add: escapeHtml_def)
next
  case (Cons c cs)
  then show ?case by (simp add: escapeHtml_Cons)
qed

lemma html_entity_safe: "set (html_entity c) \<inter> {60, 62, 34, 39} = {}"
  by (simp add: html_entity_def js_def)

lemma tag_facts:
  "t \<in> set tags \<Longrightarrow>
     t \<noteq> [] \<and> hd t = 60 \<and> 60 \<notin> set (tl t) \<and> 96 \<notin> set t \<and> 42 \<notin> set t \<and> 10 \<notin> set t
     \<and> (\<forall>x \<in> set t. \<not> isLineTerminator x) \<and> 4 \<le> length t"
  by (auto simp: tags_def js_def isLineTerminator_def)

lemma tag_li: "t \<in> set tags \<Longrightarrow> take 4 t = js ''<li>'' \<Longrightarrow> t = js ''<li>''"
  by (auto simp: tags_def js_def)

lemma tag_end_li: "t \<in> set tags \<Longrightarrow> take 3 t = js ''</l'' \<Longrightarrow> t = js ''</li>''"
  by (auto simp: tags_def js_def)

lemma markup_append: "markup a \<Longrightarrow> markup b \<Longrightarrow> markup (a @ b)"
  by (induction a rule: markup.induct) (auto intro: markup.intros)

lemma markup_angle_free: "angle_free s \<Longrightarrow> markup s"
  by (induction s) (auto simp: angle_free_def intro: markup.intros)

lemma markup_tag: "t \<in> set tags \<Longrightarrow> markup t"
  using markup_Tag [of t "[]"] markup_Nil by simp

lemma markup_Cons_inv: "markup (c # s) \<Longrightarrow> c \<noteq> 60 \<Longrightarrow> markup s"
proof (induction "c # s" arbitrary: c s rule: markup.induct)
  case (markup_Chr c s)
  then show ?case by simp
next
  case (markup_Tag t s')
  from tag_facts [OF markup_Tag.hyps(1)] have "t \<noteq> []" "hd t = 60" by simp_all
  with markup_Tag.hyps(4) markup_Tag.prems show ?case by (cases t) auto
qed

lemma markup_drop_free: "markup (u @ r) \<Longrightarrow> 60 \<notin> set u \<Longrightarrow> markup r"
  by (induction u) (auto dest: markup_Cons_inv)

lemma markup_lt_inv:
  "markup (60 # s) \<Longrightarrow> \<exists>t s'. t \<in> set tags \<and> 60 # s = t @ s' \<and> markup s'"
proof (induction "60 # s" arbitrary: s rule: markup.induct)
  case (markup_Chr s)
  then show ?case by simp
next
  case (markup_Tag t s')
  then show ?case by metis
qed

lemma angle_free_subset: "set u \<subseteq> set s \<Longrightarrow> angle_free s \<Longrightarrow> angle_free u"
  by (auto simp: angle_free_def)

lemma set_trim: "set (trim s) \<subseteq> set s"
proof -
  have "set (dropWhile P xs) \<subseteq> set xs" for P and xs :: jstr
    by (auto dest: set_dropWhileD)
  from this [of isWhiteSpace "rev (dropWhile isWhiteSpace s)"] this [of isWhiteSpace s]
  show ?thesis by (auto simp: trim_def)
qed

lemma angle_free_append: "angle_free (a @ b) \<longleftrightarrow> angle_free a \<and> angle_free b"
  by (auto simp: angle_free_def)

lemma in_tags:
  \<open>js ''<div class="code-block">'' \<in> set tags\<close>
  \<open>js ''<div class="code-block compact">'' \<in> set tags\<close>
  \<open>js ''<pre>'' \<in> set tags\<close> \<open>js ''</pre>'' \<in> set tags\<close>
  \<open>js ''<code>'' \<in> set tags\<close> \<open>js ''</code>'' \<in> set tags\<close>
  \<open>js ''</div>'' \<in> set tags\<close>
  \<open>js ''<code class="inline-code">'' \<in> set tags\<close>
  \<open>js ''<strong>'' \<in> set tags\<close> \<open>js ''</strong>'' \<in> set tags\<close>
  \<open>js ''<em>'' \<in> set tags\<close> \<open>js ''</em>'' \<in> set tags\<close>
  \<open>js ''<h3>'' \<in> set tags\<close> \<open>js ''</h3>'' \<in> set tags\<close>
  \<open>js ''<h2>'' \<in> set tags\<close> \<open>js ''</h2>'' \<in> set tags\<close>
  \<open>js ''<h1>'' \<in> set tags\<close> \<open>js ''</h1>'' \<in> set tags\<close>
  \<open>js ''<li>'' \<in> set tags\<close> \<open>js ''</li>'' \<in> set tags\<close>
  \<open>js ''<ul>'' \<in> set tags\<close> \<open>js ''</ul>'' \<in> set tags\<close>
  \<open>js ''<br>'' \<in> set tags\<close>
  by (simp_all add: tags_def)

lemma codeBlock_markup:
  assumes "angle_free code"
  shows "markup (codeBlock code)"
proof -
  let ?t = "trim code"
  let ?compact = "Suc (length (filter (\<lambda>c. c = 10) ?t)) \<le> 3 \<and> length ?t < 100"
  let ?d = \<open>if ?compact then js ''<div class="code-block compact">''
            else js ''<div class="code-block">''\<close>
  have eq: "codeBlock code =
      ?d @ ([10] @ replicate 20 32) @ js ''<pre>'' @ js ''<code>'' @ ?t @ js ''</code>''
         @ js ''</pre>'' @ ([10] @ replicate 16 32) @ js ''</div>''"
    by (simp add: codeBlock_def Let_def js_def)
  have t: "markup ?t"
    by (rule markup_angle_free) (rule angle_free_subset [OF set_trim assms])
  have w: "markup ([10] @ replicate n 32)" for n
    by (rule markup_angle_free) (simp add: angle_free_def)
  have d: "markup ?d" by (simp add: markup_tag in_tags)
  show ?thesis
    unfolding eq by (intro markup_append d w t markup_tag in_tags)
qed

lemma codeBlocks_markup: "angle_free s \<Longrightarrow> markup (codeBlocks s)"
proof (induction s rule: codeBlocks.induct)
  case (1 s)
  show ?case
  proof (cases "indexOf fence s")
    case None
    with "1.prems" show ?thesis by (simp add: codeBlocks.simps [of s] markup_angle_free)
  next
    case (Some p)
    let ?rest = "dropWhile isWhiteSpace (dropWhile isWordChar (drop (p + 3) s))"
    have sub: "set ?rest \<subseteq> set s"
      by (meson set_dropWhileD set_drop_subset subsetD subsetI)
    have rest: "angle_free ?rest" by (rule angle_free_subset [OF sub "1.prems"])
    show ?thesis
    proof (cases "indexOf fence ?rest")
      case None
      with Some "1.prems" show ?thesis
        by (simp add: codeBlocks.simps [of s] markup_angle_free Let_def)
    next
      case (Some q)
      have a: "markup (take p s)"
        by (rule markup_angle_free) (rule angle_free_subset [OF set_take_subset "1.prems"])
      have b: "markup (codeBlock (take q ?rest))"
        by (rule codeBlock_markup) (rule angle_free_subset [OF set_take_subset rest])
      have "angle_free (drop (q + 3) ?rest)"
        by (rule angle_free_subset [OF set_drop_subset rest])
      from "1.IH" [OF \<open>indexOf fence s = Some p\<close> refl Some this]
      have c: "markup (codeBlocks (drop (q + 3) ?rest))" .
      have "codeBlocks s = take p s @ codeBlock (take q ?rest) @ codeBlocks (drop (q + 3) ?rest)"
        by (subst codeBlocks.simps) (simp add: \<open>indexOf fence s = Some p\<close> Some Let_def)
      with a b c show ?thesis by (simp add: markup_append)
    qed
  qed
qed

lemma takeWhile_pass:
  "\<forall>x \<in> set u. Q x \<Longrightarrow> takeWhile Q (u @ v) = u @ takeWhile Q v"
  by (induction u) auto

lemma dropWhile_pass:
  "\<forall>x \<in> set u. Q x \<Longrightarrow> dropWhile Q (u @ v) = dropWhile Q v"
  by (induction u) auto

lemma markup_takeWhile_tags:
  assumes "markup s" and "\<And>t x. t \<in> set tags \<Longrightarrow> x \<in> set t \<Longrightarrow> Q x"
  shows "markup (takeWhile Q s) \<and> markup (dropWhile Q s)"
  using assms(1)
proof (induction s rule: markup.induct)
  case markup_Nil
  then show ?case by (simp add: markup.markup_Nil)
next
  case (markup_Chr c s)
  then show ?case by (auto intro: markup.intros)
next
  case (markup_Tag t s)
  from assms(2) [OF markup_Tag.hyps(1)] have "\<forall>x \<in> set t. Q x" by blast
  with markup_Tag show ?case
    by (simp add: takeWhile_pass dropWhile_pass markup.markup_Tag)
qed

lemma markup_while_space:
  assumes "markup s"
  shows "angle_free (takeWhile isWhiteSpace s) \<and> markup (dropWhile isWhiteSpace s)"
  using assms
proof (induction s rule: markup.induct)
  case markup_Nil
  then show ?case by (simp add: markup.markup_Nil angle_free_def)
next
  case (markup_Chr c s)
  then show ?case by (auto simp: angle_free_def intro: markup.intros)
next
  case (markup_Tag t s)
  from tag_facts [OF markup_Tag.hyps(1)] obtain t' where t: "t = 60 # t'" by (cases t) auto
  have n: "\<not> isWhiteSpace 60" by (simp add: isWhiteSpace_def)
  have tw: "takeWhile isWhiteSpace (t @ s) = []" and dw: "dropWhile isWhiteSpace (t @ s) = t @ s"
    using t n by simp_all
  from markup.markup_Tag [OF markup_Tag.hyps(1,2)] show ?case
    by (simp only: tw dw) (simp add: angle_free_def)
qed

lemma inlineCode_other: "c \<noteq> 96 \<Longrightarrow> inlineCode (c # cs) = c # inlineCode cs"
  by (simp add: Let_def)

lemma inlineCode_pass: "96 \<notin> set u \<Longrightarrow> inlineCode (u @ v) = u @ inlineCode v"
  by (induction u) (auto simp: inlineCode_other simp del: inlineCode.simps)

lemma inlineCode_markup: "markup s \<Longrightarrow> markup (inlineCode s)"
proof (induction "length s" arbitrary: s rule: less_induct)
  case less
  from less.prems show ?case
  proof (cases s rule: markup.cases)
    case markup_Nil
    then show ?thesis by (simp add: markup.markup_Nil)
  next
    case (markup_Tag t s')
    from tag_facts [OF markup_Tag(2)] have t: "t \<noteq> []" "96 \<notin> set t" by simp_all
    from t markup_Tag have "length s' < length s" by simp
    from less.hyps [OF this markup_Tag(3)] have "markup (inlineCode s')" .
    with markup_Tag t show ?thesis
      by (simp add: inlineCode_pass markup.markup_Tag)
  next
    case (markup_Chr c s')
    let ?Q = "\<lambda>x. x \<noteq> 96 \<and> x \<noteq> (10::nat)"
    let ?run = "takeWhile ?Q s'"
    let ?after = "dropWhile ?Q s'"
    have q: "?Q x" if "t \<in> set tags" "x \<in> set t" for t x
      using tag_facts [OF that(1)] that(2) by auto
    from markup_takeWhile_tags [of s' ?Q, OF markup_Chr(4) q]
    have run: "markup ?run" and after: "markup ?after" by simp_all
    show ?thesis
    proof (cases "c = 96 \<and> ?run \<noteq> [] \<and> prefix [96] ?after")
      case True
      then obtain r where r: "?after = 96 # r" by (cases ?after) auto
      with after have mr: "markup r" by (auto dest: markup_Cons_inv)
      have "length ?after \<le> length s'" by (rule length_dropWhile_le)
      with r markup_Chr have "length r < length s" by simp
      from less.hyps [OF this mr] have rec: "markup (inlineCode r)" .
      have "inlineCode s =
          js ''<code class=\"inline-code\">'' @ ?run @ js ''</code>'' @ inlineCode r"
        using True r markup_Chr(1) by (simp add: Let_def)
      with run rec show ?thesis
        by (simp add: markup_append markup_tag in_tags)
    next
      case False
      from markup_Chr have "length s' < length s" by simp
      from less.hyps [OF this markup_Chr(4)] have "markup (inlineCode s')" .
      moreover from False markup_Chr(1) have "inlineCode s = c # inlineCode s'"
        by (auto simp: Let_def)
      ultimately show ?thesis using markup_Chr by (simp add: markup.markup_Chr)
    qed
  qed
qed

lemma lazy_until_pass:
  assumes "pat \<noteq> []" and "\<forall>x \<in> set u. x \<noteq> hd pat \<and> \<not> isLineTerminator x"
  shows "lazy_until pat (u @ v) = map_option (\<lambda>(m, r). (u @ m, r)) (lazy_until pat v)"
  using assms(2)
proof (induction u)
  case Nil
  then show ?case by (simp add: option.map_ident case_prod_unfold)
next
  case (Cons x u)
  from assms(1) obtain p ps where p: "pat = p # ps" by (cases pat) auto
  with Cons.prems have "\<not> prefix pat (x # u @ v)" by auto
  with Cons show ?case
    by (auto simp: option.map_comp comp_def case_prod_unfold)
qed

lemma lazy_until_markup:
  assumes "markup s" and "lazy_until pat s = Some (m, r)"
    and "pat \<noteq> []" and "60 \<notin> set pat"
    and "\<And>t. t \<in> set tags \<Longrightarrow> hd pat \<notin> set t"
  shows "markup m \<and> markup r"
  using assms(1,2)
proof (induction s arbitrary: m rule: markup.induct)
  case markup_Nil
  with assms(3) show ?case by simp
next
  case (markup_Chr c s)
  show ?case
  proof (cases "prefix pat (c # s)")
    case True
    then obtain r' where r': "c # s = pat @ r'" by (auto simp: prefix_def)
    then have "drop (length pat) (c # s) = r'" by (metis append_eq_conv_conj)
    with True markup_Chr.prems have m: "m = []" and r: "r = r'" by simp_all
    from markup.markup_Chr [OF markup_Chr.hyps(1-3)] r' have "markup (pat @ r')" by simp
    from markup_drop_free [OF this assms(4)] m r show ?thesis by (simp add: markup.markup_Nil)
  next
    case False
    with markup_Chr.prems obtain m' where "lazy_until pat s = Some (m', r)" "m = c # m'"
      by (auto split: if_splits)
    with markup_Chr.IH [of m'] markup_Chr.hyps show ?thesis
      by (auto intro: markup.markup_Chr)
  qed
next
  case (markup_Tag t s)
  from tag_facts [OF markup_Tag.hyps(1)] assms(5) [OF markup_Tag.hyps(1)]
  have "\<forall>x \<in> set t. x \<noteq> hd pat \<and> \<not> isLineTerminator x" by auto
  from lazy_until_pass [OF assms(3) this, of s] markup_Tag.prems
  obtain m' where "lazy_until pat s = Some (m', r)" "m = t @ m'"
    by (cases "lazy_until pat s") auto
  with markup_Tag.IH [of m'] markup_Tag.hyps(1) show ?case
    by (auto intro: markup.markup_Tag)
qed

lemma bold_other: "a \<noteq> 42 \<Longrightarrow> bold (a # r) = a # bold r"
  by (cases r) simp_all

lemma bold_pass: "42 \<notin> set u \<Longrightarrow> bold (u @ v) = u @ bold v"
  by (induction u) (auto simp: bold_other simp del: bold.simps)

lemma star_not_in_tag: "t \<in> set tags \<Longrightarrow> 42 \<notin> set t"
  using tag_facts by blast

lemma bold_markup: "markup s \<Longrightarrow> markup (bold s)"
proof (induction "length s" arbitrary: s rule: less_induct)
  case less
  from less.prems show ?case
  proof (cases s rule: markup.cases)
    case markup_Nil
    then show ?thesis by (simp add: markup.markup_Nil)
  next
    case (markup_Tag t s')
    from tag_facts [OF markup_Tag(2)] have t: "t \<noteq> []" "42 \<notin> set t" by simp_all
    from t markup_Tag have "length s' < length s" by simp
    from less.hyps [OF this markup_Tag(3)] have "markup (bold s')" .
    with markup_Tag t show ?thesis by (simp add: bold_pass markup.markup_Tag)
  next
    case (markup_Chr c s')
    from markup_Chr have len: "length s' < length s" by simp
    show ?thesis
    proof (cases "c = 42 \<and> prefix [42] s'")
      case True
      then obtain cs where cs: "s' = 42 # cs" by (cases s') auto
      with markup_Chr(4) have mcs: "markup cs" by (auto dest: markup_Cons_inv)
      show ?thesis
      proof (cases "lazy_until [42, 42] cs")
        case None
        from less.hyps [OF len markup_Chr(4)] have "markup (bold s')" .
        moreover from None True cs markup_Chr(1) have "bold s = c # bold s'" by simp
        ultimately show ?thesis using markup_Chr by (simp add: markup.markup_Chr)
      next
        case (Some mr)
        obtain m r where mr: "mr = (m, r)" by (cases mr)
        have h: "hd [42, 42] \<notin> set t" if "t \<in> set tags" for t :: jstr
          using star_not_in_tag [OF that] by simp
        from lazy_until_markup [OF mcs Some [unfolded mr] _ _ h]
        have m: "markup m" and r: "markup r" by simp_all
        from lazy_until_length [OF Some [unfolded mr]] cs markup_Chr(1)
        have "length r < length s" by simp
        from less.hyps [OF this r] have rec: "markup (bold r)" .
        have "bold s = js ''<strong>'' @ m @ js ''</strong>'' @ bold r"
          using True cs markup_Chr(1) Some mr by simp
        with m rec show ?thesis
          by (simp add: markup_append markup_tag in_tags)
      qed
    next
      case False
      from less.hyps [OF len markup_Chr(4)] have "markup (bold s')" .
      moreover from False markup_Chr(1) have "bold s = c # bold s'"
        by (cases s') auto
      ultimately show ?thesis using markup_Chr by (simp add: markup.markup_Chr)
    qed
  qed
qed

lemma italic_pass: "42 \<notin> set u \<Longrightarrow> italic (u @ v) = u @ italic v"
  by (induction u) auto

lemma italic_markup: "markup s \<Longrightarrow> markup (italic s)"
proof (induction "length s" arbitrary: s rule: less_induct)
  case less
  from less.prems show ?case
  proof (cases s rule: markup.cases)
    case markup_Nil
    then show ?thesis by (simp add: markup.markup_Nil)
  next
    case (markup_Tag t s')
    from tag_facts [OF markup_Tag(2)] have t: "t \<noteq> []" "42 \<notin> set t" by simp_all
    from t markup_Tag have "length s' < length s" by simp
    from less.hyps [OF this markup_Tag(3)] have "markup (italic s')" .
    with markup_Tag t show ?thesis by (simp add: italic_pass markup.markup_Tag)
  next
    case (markup_Chr c s')
    from markup_Chr have len: "length s' < length s" by simp
    from less.hyps [OF len markup_Chr(4)] have copy: "markup (italic s')" .
    show ?thesis
    proof (cases "lazy_until [42] s'")
      case None
      then have "italic s = c # italic s'" using markup_Chr(1) by simp
      with copy markup_Chr show ?thesis by (simp add: markup.markup_Chr)
    next
      case (Some mr)
      obtain m r where mr: "mr = (m, r)" by (cases mr)
      show ?thesis
      proof (cases "c = 42")
        case False
        then have "italic s = c # italic s'" using markup_Chr(1) by simp
        with copy markup_Chr show ?thesis by (simp add: markup.markup_Chr)
      next
        case True
        have h: "hd [42] \<notin> set t" if "t \<in> set tags" for t :: jstr
          using star_not_in_tag [OF that] by simp
        from lazy_until_markup [OF markup_Chr(4) Some [unfolded mr] _ _ h]
        have m: "markup m" and r: "markup r" by simp_all
        from lazy_until_length [OF Some [unfolded mr]] markup_Chr(1)
        have "length r < length s" by simp
        from less.hyps [OF this r] have rec: "markup (italic r)" .
        have "italic s = js ''<em>'' @ m @ js ''</em>'' @ italic r"
          using True markup_Chr(1) Some mr by simp
        with m rec show ?thesis
          by (simp add: markup_append markup_tag in_tags)
      qed
    qed
  qed
qed

lemma linePrefix_other:
  "\<not> (bol \<and> pat \<noteq> [] \<and> prefix pat (c # cs)) \<Longrightarrow>
   linePrefix pat opn cls bol (c # cs) = c # linePrefix pat opn cls (isLineTerminator c) cs"
  by (subst linePrefix.simps) auto

lemma linePrefix_inside:
  "\<forall>x \<in> set u. \<not> isLineTerminator x \<Longrightarrow>
   linePrefix pat opn cls False (u @ v) = u @ linePrefix pat opn cls False v"
  by (induction u) (simp_all add: linePrefix_other)

lemma linePrefix_pass:
  assumes "t \<in> set tags" and "hd pat \<noteq> 60"
  shows "linePrefix pat opn cls bol (t @ v) = t @ linePrefix pat opn cls False v"
proof -
  from tag_facts [OF assms(1)] obtain u where t: "t = 60 # u"
    and u: "\<forall>x \<in> set u. \<not> isLineTerminator x"
    by (cases t) auto
  have n: "\<not> isLineTerminator 60" by (simp add: isLineTerminator_def)
  have "\<not> (bol \<and> pat \<noteq> [] \<and> prefix pat (60 # u @ v))"
    using assms(2) by (cases pat) auto
  from linePrefix_other [OF this] show ?thesis
    by (simp add: t n linePrefix_inside [OF u])
qed

lemma linePrefix_markup:
  assumes "opn \<in> set tags" and "cls \<in> set tags" and "hd pat \<noteq> 60" and "60 \<notin> set pat"
  shows "markup s \<Longrightarrow> markup (linePrefix pat opn cls bol s)"
proof (induction "length s" arbitrary: s bol rule: less_induct)
  case less
  from less.prems show ?case
  proof (cases s rule: markup.cases)
    case markup_Nil
    then show ?thesis by (subst linePrefix.simps) (simp add: markup.markup_Nil)
  next
    case (markup_Tag t s')
    from tag_facts [OF markup_Tag(2)] markup_Tag have "length s' < length s" by simp
    from less.hyps [OF this markup_Tag(3)] have "markup (linePrefix pat opn cls False s')" .
    with markup_Tag show ?thesis
      by (simp add: linePrefix_pass [OF markup_Tag(2) assms(3)] markup.markup_Tag)
  next
    case (markup_Chr c s')
    show ?thesis
    proof (cases "bol \<and> pat \<noteq> [] \<and> prefix pat s")
      case True
      let ?Q = "\<lambda>c. \<not> isLineTerminator c"
      let ?rest = "drop (length pat) s"
      from True have s: "s = pat @ ?rest" by (auto simp: prefix_def)
      with less.prems have "markup (pat @ ?rest)" by simp
      from markup_drop_free [OF this assms(4)] have rest: "markup ?rest" .
      have q: "?Q x" if "t \<in> set tags" "x \<in> set t" for t x
        using tag_facts [OF that(1)] that(2) by auto
      from markup_takeWhile_tags [of ?rest ?Q, OF rest q]
      have run: "markup (takeWhile ?Q ?rest)" and after: "markup (dropWhile ?Q ?rest)"
        by simp_all
      from True have "length pat \<noteq> 0" "length pat \<le> length s"
        by (auto simp: prefix_length_le)
      then have "length ?rest < length s" unfolding length_drop by arith
      moreover have "length (dropWhile ?Q ?rest) \<le> length ?rest" by (rule length_dropWhile_le)
      ultimately have "length (dropWhile ?Q ?rest) < length s" by simp
      from less.hyps [OF this after]
      have rec: "markup (linePrefix pat opn cls False (dropWhile ?Q ?rest))" .
      have "linePrefix pat opn cls bol s =
          opn @ takeWhile ?Q ?rest @ cls @ linePrefix pat opn cls False (dropWhile ?Q ?rest)"
        by (subst linePrefix.simps) (simp add: True Let_def)
      with run rec assms(1,2) show ?thesis
        by (simp add: markup_append markup_tag)
    next
      case False
      from markup_Chr have "length s' < length s" by simp
      from less.hyps [OF this markup_Chr(4)]
      have "markup (linePrefix pat opn cls (isLineTerminator c) s')" .
      moreover from False markup_Chr(1)
      have "linePrefix pat opn cls bol s = c # linePrefix pat opn cls (isLineTerminator c) s'"
        by (simp add: linePrefix_other)
      ultimately show ?thesis using markup_Chr by (simp add: markup.markup_Chr)
    qed
  qed
qed

lemma lazy_until_li_markup:
  assumes "markup s" and "lazy_until (js ''</li>'') s = Some (m, r)"
  shows "markup m \<and> markup r"
  using assms
proof (induction s arbitrary: m rule: markup.induct)
  case markup_Nil
  then show ?case by (simp add: js_def)
next
  case (markup_Chr c s)
  from markup_Chr.hyps(1) have "\<not> prefix (js ''</li>'') (c # s)" by (simp add: js_def)
  with markup_Chr.prems obtain m' where "lazy_until (js ''</li>'') s = Some (m', r)" "m = c # m'"
    by (auto split: if_splits)
  with markup_Chr.IH [of m'] markup_Chr.hyps show ?case by (auto intro: markup.markup_Chr)
next
  case (markup_Tag t s)
  from tag_facts [OF markup_Tag.hyps(1)] obtain u where t: "t = 60 # u"
    and u: "60 \<notin> set u" "\<forall>x \<in> set u. \<not> isLineTerminator x" and len: "4 \<le> length t"
    by (cases t) auto
  show ?case
  proof (cases "t = js ''</li>''")
    case True
    with markup_Tag.prems have "m = []" "r = s" by (simp_all add: js_def)
    with markup_Tag.hyps(2) show ?thesis by (simp add: markup.markup_Nil)
  next
    case False
    have np: "\<not> prefix (js ''</li>'') (t @ s)"
    proof
      assume "prefix (js ''</li>'') (t @ s)"
      then obtain zs where "t @ s = js ''</li>'' @ zs" by (auto simp: prefix_def)
      then have "take 3 (t @ s) = take 3 (js ''</li>'' @ zs)" by simp
      also have "\<dots> = js ''</l''" by (simp add: js_def)
      finally have "take 3 (t @ s) = js ''</l''" .
      with len have "take 3 t = js ''</l''" by simp
      from tag_end_li [OF markup_Tag.hyps(1) this] False show False by simp
    qed
    have n: "\<not> isLineTerminator 60" by (simp add: isLineTerminator_def)
    have p: "js ''</li>'' \<noteq> []" by (simp add: js_def)
    have h: "\<forall>x \<in> set u. x \<noteq> hd (js ''</li>'') \<and> \<not> isLineTerminator x"
      using u by (auto simp: js_def)
    from np n t have "lazy_until (js ''</li>'') (t @ s) =
        map_option (\<lambda>(m, r). (60 # m, r)) (lazy_until (js ''</li>'') (u @ s))"
      by simp
    also have "\<dots> = map_option (\<lambda>(m, r). (t @ m, r)) (lazy_until (js ''</li>'') s)"
      by (simp add: lazy_until_pass [OF p h] option.map_comp comp_def case_prod_unfold t)
    finally obtain m' where "lazy_until (js ''</li>'') s = Some (m', r)" "m = t @ m'"
      using markup_Tag.prems by (cases "lazy_until (js ''</li>'') s") auto
    with markup_Tag.IH [of m'] markup_Tag.hyps(1) show ?thesis
      by (auto intro: markup.markup_Tag)
  qed
qed

lemma match_li_markup:
  assumes "markup s" and "match_li s = Some (item, r)"
  shows "markup item \<and> markup r"
proof -
  from assms(2) have p: "prefix (js ''<li>'') s"
    by (simp add: match_li_def split: if_splits)
  then obtain rest where s: "s = js ''<li>'' @ rest" by (auto simp: prefix_def)
  then have s60: "s = 60 # tl (js ''<li>'') @ rest" by (simp add: js_def)
  with assms(1) markup_lt_inv [of "tl (js ''<li>'') @ rest"]
  obtain t s' where t: "t \<in> set tags" "s = t @ s'" "markup s'" by auto
  from tag_facts [OF t(1)] have "4 \<le> length t" by simp
  then have a: "take 4 (t @ s') = take 4 t" by simp
  have b: "take 4 (js ''<li>'' @ rest) = js ''<li>''" by (simp add: js_def)
  from t(2) s have "t @ s' = js ''<li>'' @ rest" by simp
  then have "take 4 (t @ s') = take 4 (js ''<li>'' @ rest)" by (rule arg_cong)
  then have "take 4 t = js ''<li>''" by (simp only: a b)
  from tag_li [OF t(1) this] t(2,3) s have rest: "markup rest" by simp
  from assms(2) p s obtain m where m: "lazy_until (js ''</li>'') rest = Some (m, r)"
    and item: "item = js ''<li>'' @ m @ js ''</li>''"
    by (auto simp: match_li_def js_def)
  from lazy_until_li_markup [OF rest m] item show ?thesis
    by (simp add: markup_append markup_tag in_tags)
qed

lemma more_items_markup:
  "markup s \<Longrightarrow> markup (fst (more_items s)) \<and> markup (snd (more_items s))"
proof (induction s rule: more_items.induct)
  case (1 s)
  from markup_while_space [OF "1.prems"]
  have ws: "angle_free (takeWhile isWhiteSpace s)" and rest: "markup (dropWhile isWhiteSpace s)"
    by simp_all
  show ?case
  proof (cases "match_li (dropWhile isWhiteSpace s)")
    case None
    with "1.prems" show ?thesis by (simp add: more_items.simps [of s] markup.markup_Nil)
  next
    case (Some x)
    obtain item r where x: "x = (item, r)" by (cases x)
    from match_li_markup [OF rest Some [unfolded x]] have item: "markup item" and r: "markup r"
      by simp_all
    from "1.IH" [OF Some x [symmetric] r]
    have rec: "markup (fst (more_items r))" "markup (snd (more_items r))" by simp_all
    have "more_items s =
        (takeWhile isWhiteSpace s @ item @ fst (more_items r), snd (more_items r))"
      by (subst more_items.simps) (simp add: Some x split: prod.splits)
    with ws item rec show ?thesis
      by (simp add: markup_append markup_angle_free)
  qed
qed

lemma match_li_other: "c \<noteq> 60 \<Longrightarrow> match_li (c # cs) = None"
  by (simp add: match_li_def js_def)

lemma wrapLists_inside: "60 \<notin> set u \<Longrightarrow> wrapLists (u @ v) = u @ wrapLists v"
  by (induction u) (simp_all add: match_li_other)

lemma wrapLists_pass:
  assumes "t \<in> set tags" and "match_li (t @ v) = None"
  shows "wrapLists (t @ v) = t @ wrapLists v"
proof -
  from tag_facts [OF assms(1)] obtain u where t: "t = 60 # u" and u: "60 \<notin> set u"
    by (cases t) auto
  from assms(2) t show ?thesis by (simp add: wrapLists_inside [OF u])
qed

lemma wrapLists_markup: "markup s \<Longrightarrow> markup (wrapLists s)"
proof (induction "length s" arbitrary: s rule: less_induct)
  case less
  from less.prems show ?case
  proof (cases s rule: markup.cases)
    case markup_Nil
    then show ?thesis by (simp add: markup.markup_Nil)
  next
    case (markup_Chr c s')
    from markup_Chr have "length s' < length s" by simp
    from less.hyps [OF this markup_Chr(4)] have "markup (wrapLists s')" .
    with markup_Chr show ?thesis by (simp add: match_li_other markup.markup_Chr)
  next
    case (markup_Tag t s')
    from tag_facts [OF markup_Tag(2)] obtain u where t: "t = 60 # u" by (cases t) auto
    show ?thesis
    proof (cases "match_li s")
      case None
      from t markup_Tag have "length s' < length s" by simp
      from less.hyps [OF this markup_Tag(3)] have "markup (wrapLists s')" .
      with None markup_Tag show ?thesis
        by (simp add: wrapLists_pass markup.markup_Tag)
    next
      case (Some x)
      obtain item r where x: "x = (item, r)" by (cases x)
      from match_li_markup [OF less.prems Some [unfolded x]]
      have item: "markup item" and r: "markup r" by simp_all
      from more_items_markup [OF r]
      have items: "markup (fst (more_items r))" and r': "markup (snd (more_items r))"
        by simp_all
      from match_li_length [OF Some [unfolded x]] more_items_length [of r]
      have "length (snd (more_items r)) < length s" by simp
      from less.hyps [OF this r'] have rec: "markup (wrapLists (snd (more_items r)))" .
      have "wrapLists s =
          js ''<ul>'' @ item @ fst (more_items r) @ js ''</ul>'' @ wrapLists (snd (more_items r))"
        using Some x t markup_Tag(1) by simp
      with item items rec show ?thesis
        by (simp add: markup_append markup_tag in_tags)
    qed
  qed
qed

lemma replaceAll_other: "c \<notin> set u \<Longrightarrow> replaceAll c rep u = u"
  by (induction u) auto

lemma br_markup: "markup s \<Longrightarrow> markup (replaceAll 10 (js ''<br>'') s)"
proof (induction s rule: markup.induct)
  case markup_Nil
  then show ?case by (simp add: markup.markup_Nil)
next
  case (markup_Chr c s)
  then show ?case by (auto simp: markup_append markup_tag in_tags intro: markup.markup_Chr)
next
  case (markup_Tag t s)
  from tag_facts [OF markup_Tag.hyps(1)] have "10 \<notin> set t" by simp
  with markup_Tag show ?case
    by (simp add: replaceAll_append replaceAll_other markup.markup_Tag)
qed

lemma markdown_markup:
  assumes "angle_free html"
  shows "markup (markdown html)"
proof -
  have p: "hd (js ''### '') \<noteq> 60" "60 \<notin> set (js ''### '')"
    "hd (js ''## '') \<noteq> 60" "60 \<notin> set (js ''## '')"
    "hd (js ''# '') \<noteq> 60" "60 \<notin> set (js ''# '')"
    "hd (js ''- '') \<noteq> 60" "60 \<notin> set (js ''- '')"
    by (simp_all add: js_def)
  note lp = linePrefix_markup [OF _ _ p(1,2)] linePrefix_markup [OF _ _ p(3,4)]
    linePrefix_markup [OF _ _ p(5,6)] linePrefix_markup [OF _ _ p(7,8)]
  show ?thesis
    unfolding markdown_def Let_def
    by (intro br_markup wrapLists_markup lp in_tags italic_markup bold_markup
        inlineCode_markup codeBlocks_markup assms)
qed

lemma escapeHtml_angle_free: "angle_free (escapeHtml input)"
proof -
  have "angle_free (html_entity c)" for c
    by (simp add: html_entity_def angle_free_def js_def)
  then have "angle_free (concat (map html_entity input))"
    by (induction input) (simp_all add: angle_free_append, simp add: angle_free_def)
  then show ?thesis by (simp add: escapeHtml_entities)
qed

lemma formatMessage_markup: "markup (formatMessage input)"
  by (cases input)
    (simp_all add: formatMessage_def markup.markup_Nil markdown_markup escapeHtml_angle_free)

lemma markup_lt:
  "markup s \<Longrightarrow> i < length s \<Longrightarrow> s ! i = 60 \<Longrightarrow> \<exists>t \<in> set tags. prefix t (drop i s)"
proof (induction s arbitrary: i rule: markup.induct)
  case markup_Nil
  then show ?case by simp
next
  case (markup_Chr c s)
  then show ?case by (cases i) auto
next
  case (markup_Tag t s)
  from tag_facts [OF markup_Tag.hyps(1)] obtain u where t: "t = 60 # u" and u: "60 \<notin> set u"
    by (cases t) auto
  show ?case
  proof (cases "i < length t")
    case True
    with markup_Tag.prems t u have "i = 0"
      by (cases i) (auto simp: nth_append dest: nth_mem)
    with markup_Tag.hyps(1) show ?thesis by (auto intro!: bexI [of _ t])
  next
    case False
    with markup_Tag.prems have "i - length t < length s" "s ! (i - length t) = 60"
      by (auto simp: nth_append)
    from markup_Tag.IH [OF this] False show ?thesis by simp
  qed
qed

text \<open>
  C9. \<open>formatMessage\<close> returns the empty string for \<open>null\<close> and for the empty string. For any
  other input the markdown statements work on the escaped input: the input with each of the
  characters \<open>&\<close>, \<open><\<close>, \<open>>\<close>, the double and the single quote replaced by its entity, which
  holds no \<open><\<close>, no \<open>>\<close> and no quote at all. The result is made of characters other than
  \<open><\<close> and \<open>>\<close> and of whole tags that \<open>formatMessage\<close> writes itself: no angle bracket of
  the input reaches the result, and the input cannot add a tag to it.
\<close>

theorem formatMessage_escapes_first:
  "formatMessage None = []
   \<and> formatMessage (Some []) = []
   \<and> (input \<noteq> [] \<longrightarrow> formatMessage (Some input) = markdown (escapeHtml input))
   \<and> escapeHtml input = concat (map html_entity input)
   \<and> set (escapeHtml input) \<inter> {60, 62, 34, 39} = {}
   \<and> markup (formatMessage (Some input))"
proof -
  have a: "set (concat (map html_entity input)) \<inter> {60, 62, 34, 39} = {}"
    using html_entity_safe by (induction input) auto
  have b: "formatMessage None = [] \<and> formatMessage (Some []) = []
      \<and> (input \<noteq> [] \<longrightarrow> formatMessage (Some input) = markdown (escapeHtml input))"
    by (simp add: formatMessage_def)
  have c: "markup (formatMessage (Some input))" by (rule formatMessage_markup)
  from a b c show ?thesis by (simp only: escapeHtml_entities) blast
qed

theorem formatMessage_escapes_first_witness:
  \<open>js ''<b>"Tom" & 'Jerry'</b>'' \<noteq> []
   \<and> formatMessage (Some (js ''<b>"Tom" & 'Jerry'</b>''))
       = markdown (escapeHtml (js ''<b>"Tom" & 'Jerry'</b>''))
   \<and> escapeHtml (js ''<b>"Tom" & 'Jerry'</b>'')
       = js ''&lt;b&gt;&quot;Tom&quot; &amp; &#x27;Jerry&#x27;&lt;/b&gt;''
   \<and> formatMessage (Some (js ''<b>"Tom" & 'Jerry'</b>''))
       = js ''&lt;b&gt;&quot;Tom&quot; &amp; &#x27;Jerry&#x27;&lt;/b&gt;''\<close>
proof -
  have a: \<open>js ''<b>"Tom" & 'Jerry'</b>'' \<noteq> []\<close> by (simp add: js_def)
  have e: \<open>escapeHtml (js ''<b>"Tom" & 'Jerry'</b>'')
       = js ''&lt;b&gt;&quot;Tom&quot; &amp; &#x27;Jerry&#x27;&lt;/b&gt;''\<close>
    by (simp add: escapeHtml_def js_def)
  have m: \<open>markdown (js ''&lt;b&gt;&quot;Tom&quot; &amp; &#x27;Jerry&#x27;&lt;/b&gt;'')
       = js ''&lt;b&gt;&quot;Tom&quot; &amp; &#x27;Jerry&#x27;&lt;/b&gt;''\<close>
    by (simp add: js_def markdown_def codeBlocks.simps linePrefix.simps fence_def match_li_def
        isLineTerminator_def)
  from formatMessage_escapes_first [of \<open>js ''<b>"Tom" & 'Jerry'</b>''\<close>] a
  have f: \<open>formatMessage (Some (js ''<b>"Tom" & 'Jerry'</b>''))
       = markdown (escapeHtml (js ''<b>"Tom" & 'Jerry'</b>''))\<close>
    by blast
  from a f e m show ?thesis by simp
qed

end
